theory Spec2Isabelle
  imports Main "HOL-Library.Multiset"
begin

section \<open>Errors, Python indexing and slicing\<close>

text \<open>
  The executor of \<^verbatim>\<open>scan_op.py\<close> raises Python exceptions; they are values here.
  \<open>InnerStepFailure\<close> stands for whatever the compiled inner function raises.
\<close>

datatype error = ValueError | IndexError | TypeError | InnerStepFailure

text \<open>\<^verbatim>\<open>for x in xs: body\<close> where the body may raise: the first error ends the loop.\<close>

fun fold_err :: "('b \<Rightarrow> 's \<Rightarrow> error + 's) \<Rightarrow> 'b list \<Rightarrow> 's \<Rightarrow> error + 's" where
  "fold_err f [] s = Inr s"
| "fold_err f (x # xs) s = (case f x s of Inl e \<Rightarrow> Inl e | Inr s' \<Rightarrow> fold_err f xs s')"

text \<open>A list comprehension whose element expression may raise.\<close>

fun map_err :: "('b \<Rightarrow> error + 'c) \<Rightarrow> 'b list \<Rightarrow> error + 'c list" where
  "map_err f [] = Inr []"
| "map_err f (x # xs) =
     (case f x of Inl e \<Rightarrow> Inl e
      | Inr y \<Rightarrow> (case map_err f xs of Inl e \<Rightarrow> Inl e | Inr ys \<Rightarrow> Inr (y # ys)))"

text \<open>
  \<^verbatim>\<open>a[i]\<close> on an array with \<open>len\<close> leading entries: a negative index counts from the
  end, an index outside \<open>[-len, len)\<close> raises IndexError.
\<close>

definition py_index :: "nat \<Rightarrow> int \<Rightarrow> error + nat" where
  "py_index len i =
     (let j = (if i < 0 then int len + i else i)
      in if 0 \<le> j \<and> j < int len then Inr (nat j) else Inl IndexError)"

text \<open>
  An output cell \<^verbatim>\<open>outs[idx][0]\<close> holds \<open>None\<close> or an array, modelled as the list of
  its entries along the leading dimension. Indexing \<open>None\<close> raises TypeError.
\<close>

definition getitem :: "'a list option \<Rightarrow> int \<Rightarrow> error + 'a" where
  "getitem cell i =
     (case cell of None \<Rightarrow> Inl TypeError
      | Some buf \<Rightarrow> (case py_index (length buf) i of Inl e \<Rightarrow> Inl e | Inr j \<Rightarrow> Inr (buf ! j)))"

definition setitem :: "'a list option \<Rightarrow> int \<Rightarrow> 'a \<Rightarrow> error + 'a list option" where
  "setitem cell i v =
     (case cell of None \<Rightarrow> Inl TypeError
      | Some buf \<Rightarrow>
          (case py_index (length buf) i of Inl e \<Rightarrow> Inl e | Inr j \<Rightarrow> Inr (Some (buf[j := v]))))"

text \<open>
  \<^verbatim>\<open>a % b\<close> where an operand is a numpy integer (a \<^verbatim>\<open>numpy.int64\<close> or a 0-d array), as
  every \<^verbatim>\<open>%\<close> of the executor is: the result has the sign of the divisor, and a
  divisor 0 gives 0 (numpy only emits a RuntimeWarning), not an exception.
\<close>

definition numpy_mod :: "int \<Rightarrow> int \<Rightarrow> int" where
  "numpy_mod a b = (if b = 0 then 0 else a mod b)"

text \<open>The bound \<open>n\<close> of a slice \<^verbatim>\<open>a[:n]\<close> or \<^verbatim>\<open>a[n:]\<close>, clipped as Python clips it.\<close>

definition slice_bound :: "nat \<Rightarrow> int \<Rightarrow> nat" where
  "slice_bound len n = (if n < 0 then nat (int len + n) else min (nat n) len)"

definition py_take :: "int \<Rightarrow> 'a list \<Rightarrow> 'a list" where
  "py_take n buf = take (slice_bound (length buf) n) buf"

definition py_drop :: "int \<Rightarrow> 'a list \<Rightarrow> 'a list" where
  "py_drop n buf = drop (slice_bound (length buf) n) buf"

text \<open>
  \<^verbatim>\<open>buf[:n] = src\<close> and \<^verbatim>\<open>buf[n:] = src\<close> between arrays: the right-hand side is read
  before anything is written; a single entry is broadcast over the slice, any other
  length that does not fit raises ValueError.
\<close>

definition fit_slice :: "nat \<Rightarrow> 'a list \<Rightarrow> error + 'a list" where
  "fit_slice n src =
     (if length src = n then Inr src
      else if length src = 1 then Inr (replicate n (hd src))
      else Inl ValueError)"

definition assign_head :: "'a list \<Rightarrow> int \<Rightarrow> 'a list \<Rightarrow> error + 'a list" where
  "assign_head buf n src =
     (case fit_slice (slice_bound (length buf) n) src of
        Inl e \<Rightarrow> Inl e
      | Inr vs \<Rightarrow> Inr (vs @ drop (slice_bound (length buf) n) buf))"

definition assign_tail :: "'a list \<Rightarrow> int \<Rightarrow> 'a list \<Rightarrow> error + 'a list" where
  "assign_tail buf n src =
     (case fit_slice (length buf - slice_bound (length buf) n) src of
        Inl e \<Rightarrow> Inl e
      | Inr vs \<Rightarrow> Inr (take (slice_bound (length buf) n) buf @ vs))"

text \<open>\<^verbatim>\<open>buf[n:] = 0\<close>: the scalar is broadcast over the slice.\<close>

definition zero_tail :: "int \<Rightarrow> 'a::zero list \<Rightarrow> 'a list" where
  "zero_tail n buf =
     take (slice_bound (length buf) n) buf @
     replicate (length buf - slice_bound (length buf) n) 0"

section \<open>The channel model\<close>

text \<open>
  The \<^verbatim>\<open>info\<close> dictionary of a \<^verbatim>\<open>Scan\<close> op, restricted to the entries that the
  executor and the gradient constructor read.
\<close>

record scan_info =
  n_seqs :: nat
  n_mit_mot :: nat
  n_mit_mot_outs :: nat
  n_mit_sot :: nat
  n_sit_sot :: nat
  n_nit_sot :: nat
  n_shared_outs :: nat
  tap_array :: "int list list"
  mit_mot_out_slices :: "int list list"
  truncate_gradient :: int
  as_while :: bool
  inplace :: bool

text \<open>
  Values precomputed by \<^verbatim>\<open>Scan.__init__\<close>. \<^verbatim>\<open>numpy.min\<close> raises on an empty tap list,
  so a constructed op has none; \<open>numpy_min\<close> is only meaningful on a non-empty list.
\<close>

definition numpy_min :: "int list \<Rightarrow> int" where
  "numpy_min xs = fold min (tl xs) (hd xs)"

definition mintaps :: "scan_info \<Rightarrow> int list" where
  "mintaps info = map numpy_min (tap_array info) @ replicate (n_nit_sot info) 0"

definition n_outs :: "scan_info \<Rightarrow> nat" where
  "n_outs info = n_mit_mot info + n_mit_sot info + n_sit_sot info"

text \<open>
  The arguments of \<^verbatim>\<open>execute\<close>, which the source packs in one list and cuts at
  \<^verbatim>\<open>seqs_arg_offset\<close>, \<^verbatim>\<open>shared_arg_offset\<close> and \<^verbatim>\<open>nit_sot_arg_offset\<close>:
  \<^verbatim>\<open>n_steps\<close>, the sequences, the initial states of the \<open>n_outs\<close> tap outputs, the
  initial shared values, the trip counts of the nit-sot outputs (non-negative
  integers) and the non-sequence arguments.
\<close>

record 'a scan_args =
  arg_n_steps :: int
  arg_seqs :: "'a list list"
  arg_init :: "'a list list"
  arg_shared :: "'a list"
  arg_nit_sot :: "nat list"
  arg_other :: "'a list"

section \<open>The executor\<close>

subsection \<open>Step 1: number of steps and sequences\<close>

text \<open>
  Every sequence is checked against the (absolute) number of steps, in order; with
  \<open>flip\<close> it is appended reversed (\<^verbatim>\<open>seq[::-1]\<close>).
\<close>

fun collect_seqs :: "bool \<Rightarrow> nat \<Rightarrow> 'a list list \<Rightarrow> error + 'a list list" where
  "collect_seqs flip n [] = Inr []"
| "collect_seqs flip n (seq # rest) =
     (if length seq < n then Inl ValueError
      else (case collect_seqs flip n rest of Inl e \<Rightarrow> Inl e
            | Inr seqs \<Rightarrow> Inr ((if flip then rev seq else seq) # seqs)))"

definition unzip_steps :: "'a scan_args \<Rightarrow> error + (nat \<times> 'a list list)" where
  "unzip_steps args =
     (if arg_n_steps args < 0
      then (case collect_seqs True (nat \<bar>arg_n_steps args\<bar>) (arg_seqs args) of
              Inl e \<Rightarrow> Inl e | Inr seqs \<Rightarrow> Inr (nat \<bar>arg_n_steps args\<bar>, seqs))
      else (case collect_seqs False (nat (arg_n_steps args)) (arg_seqs args) of
              Inl e \<Rightarrow> Inl e | Inr seqs \<Rightarrow> Inr (nat (arg_n_steps args), seqs)))"

subsection \<open>Step 2: store lengths, positions and storage\<close>

definition store_steps_of :: "'a scan_args \<Rightarrow> nat list" where
  "store_steps_of args = map length (arg_init args) @ arg_nit_sot args"

text \<open>
  \<^verbatim>\<open>(-mintaps[idx]) % store_steps[idx]\<close>: \<^verbatim>\<open>mintaps[idx]\<close> is a \<^verbatim>\<open>numpy.int64\<close> for a tap
  output and the store length a 0-d array for a nit-sot output, so this is numpy's
  \<^verbatim>\<open>%\<close> and the positions are numpy integers. A store length 0 gives position 0.
\<close>

definition init_pos :: "scan_info \<Rightarrow> nat list \<Rightarrow> nat list" where
  "init_pos info store_steps =
     map (\<lambda>idx. nat (numpy_mod (- (mintaps info ! idx)) (int (store_steps ! idx))))
       [0..<n_outs info + n_nit_sot info]"

text \<open>
  Step 2.1, for a tap output \<open>idx\<close>. A caller-provided cell is \<open>Some buf\<close> only when
  its entries have the shape of the initial state's entries (entry shapes are not
  modelled further); \<open>None\<close> leads to the copy of the initial state.
\<close>

definition alloc_out ::
  "scan_info \<Rightarrow> 'a scan_args \<Rightarrow> nat list \<Rightarrow> 'a list option list \<Rightarrow> nat
     \<Rightarrow> error + 'a list option" where
  "alloc_out info args store_steps outs idx =
     (if inplace info then Inr (Some (arg_init args ! idx))
      else (case outs ! idx of
              None \<Rightarrow> Inr (Some (arg_init args ! idx))
            | Some buf \<Rightarrow>
                if store_steps ! idx \<le> length buf
                then (let buf' = take (store_steps ! idx) buf in
                      if n_mit_mot info < idx
                      then (case assign_head buf' (- (mintaps info ! idx))
                                   (py_take (- (mintaps info ! idx)) (arg_init args ! idx)) of
                              Inl e \<Rightarrow> Inl e | Inr b \<Rightarrow> Inr (Some b))
                      else Inr (Some (arg_init args ! idx)))
                else Inr (Some (arg_init args ! idx))))"

subsection \<open>The loop\<close>

text \<open>
  What stays fixed during the loop: the op, the compiled inner function (its input
  slots to its output slots, or the exception it raises), the arguments, the number
  of steps and the sequences of step 1, and the store lengths. The entries of the
  buffers are values of one type \<open>'a\<close>, which stands for the dtype of the outputs;
  \<open>e_via_float64\<close> is what an entry becomes when it is stored in a \<^verbatim>\<open>float64\<close> array
  and copied back into its buffer (step 6 does this).
\<close>

record 'a scan_env =
  e_info :: scan_info
  e_fn :: "'a list \<Rightarrow> error + 'a list"
  e_via_float64 :: "'a \<Rightarrow> 'a"
  e_args :: "'a scan_args"
  e_n_steps :: nat
  e_seqs :: "'a list list"
  e_store_steps :: "nat list"

text \<open>
  What the loop changes: the counter \<open>i\<close>, the flag \<open>cond\<close>, the positions, the cells
  of the tap and nit-sot outputs, and the cells of the shared outputs.
\<close>

record 'a loop_state =
  st_i :: nat
  st_cond :: bool
  st_pos :: "nat list"
  st_outs :: "'a list option list"
  st_shared :: "'a list"

text \<open>Step 3, one tap of output \<open>idx\<close>: \<^verbatim>\<open>outs[idx][0][(pos[idx] + tap) % store_steps[idx]]\<close>.\<close>

definition tap_read :: "'a scan_env \<Rightarrow> 'a loop_state \<Rightarrow> nat \<Rightarrow> int \<Rightarrow> error + 'a" where
  "tap_read env st idx tap =
     getitem (st_outs st ! idx)
       (numpy_mod (int (st_pos st ! idx) + tap) (int (e_store_steps env ! idx)))"

definition tap_slots :: "scan_info \<Rightarrow> (nat \<times> int) list" where
  "tap_slots info =
     concat (map (\<lambda>idx. map (\<lambda>tap. (idx, tap)) (tap_array info ! idx)) [0..<n_outs info])"

text \<open>
  The input slots of one call: sequence slices, tap reads, shared values (from the
  arguments on the first iteration, from the previous outputs afterwards) and the
  non-sequence arguments.
\<close>

definition inner_inputs :: "'a scan_env \<Rightarrow> 'a loop_state \<Rightarrow> error + 'a list" where
  "inner_inputs env st =
     (case map_err (\<lambda>(idx, tap). tap_read env st idx tap) (tap_slots (e_info env)) of
        Inl e \<Rightarrow> Inl e
      | Inr taps \<Rightarrow>
          Inr (map (\<lambda>idx. e_seqs env ! idx ! st_i st) [0..<n_seqs (e_info env)] @
               taps @
               (if st_i st = 0
                then map (\<lambda>j. arg_shared (e_args env) ! j) [0..<n_shared_outs (e_info env)]
                else map (\<lambda>j. st_shared st ! j) [0..<n_shared_outs (e_info env)]) @
               arg_other (e_args env)))"

text \<open>
  Step 5.1: the slices of mit-mot output \<open>j\<close> are written at \<^verbatim>\<open>k + pos[j]\<close>, taking
  the output slots from \<open>offset_out\<close> on. The state is the cells and \<open>offset_out\<close>.
\<close>

definition write_mit_mot_slice ::
  "nat list \<Rightarrow> 'a list \<Rightarrow> nat \<Rightarrow> int \<Rightarrow> 'a list option list \<times> nat
     \<Rightarrow> error + 'a list option list \<times> nat" where
  "write_mit_mot_slice pos outputs j k s =
     (case setitem (fst s ! j) (k + int (pos ! j)) (outputs ! snd s) of
        Inl e \<Rightarrow> Inl e
      | Inr cell \<Rightarrow> Inr ((fst s)[j := cell], Suc (snd s)))"

definition scatter_mit_mot ::
  "scan_info \<Rightarrow> nat list \<Rightarrow> 'a list \<Rightarrow> 'a list option list
     \<Rightarrow> error + 'a list option list \<times> nat" where
  "scatter_mit_mot info pos outputs outs =
     fold_err (\<lambda>j. fold_err (write_mit_mot_slice pos outputs j) (mit_mot_out_slices info ! j))
       [0..<n_mit_mot info] (outs, 0)"

text \<open>
  Step 5.2: mit-sot and sit-sot output \<open>j\<close> is written at \<^verbatim>\<open>pos[j]\<close> from output slot
  \<^verbatim>\<open>offset_out + j\<close>, where \<^verbatim>\<open>offset_out\<close> has been lowered by \<^verbatim>\<open>n_mit_mot\<close>. The
  source skips the copy when the inner function has already written into that very
  entry; the cell then holds the same value.
\<close>

definition out_slot :: "scan_info \<Rightarrow> nat \<Rightarrow> nat \<Rightarrow> nat" where
  "out_slot info offset_out j = offset_out + j - n_mit_mot info"

definition write_sot ::
  "scan_info \<Rightarrow> nat list \<Rightarrow> 'a list \<Rightarrow> nat \<Rightarrow> nat \<Rightarrow> 'a list option list
     \<Rightarrow> error + 'a list option list" where
  "write_sot info pos outputs offset_out j outs =
     (case setitem (outs ! j) (int (pos ! j)) (outputs ! out_slot info offset_out j) of
        Inl e \<Rightarrow> Inl e
      | Inr cell \<Rightarrow> Inr (outs[j := cell]))"

text \<open>
  Step 5.3: on the first iteration the cell of nit-sot output \<open>j\<close> is allocated with
  zeros unless a caller-provided array fits (\<open>Some buf\<close> with the entry shape and
  dtype of the output, long enough), which is cut to the store length.
\<close>

definition nit_sot_cell :: "nat \<Rightarrow> 'a::zero list option \<Rightarrow> 'a list option" where
  "nit_sot_cell store cell =
     (case cell of
        None \<Rightarrow> Some (replicate store 0)
      | Some buf \<Rightarrow>
          if length buf < store then Some (replicate store 0)
          else if length buf \<noteq> store then Some (take store buf)
          else Some buf)"

definition write_nit_sot ::
  "scan_info \<Rightarrow> nat list \<Rightarrow> nat \<Rightarrow> nat list \<Rightarrow> 'a::zero list \<Rightarrow> nat \<Rightarrow> nat
     \<Rightarrow> 'a list option list \<Rightarrow> error + 'a list option list" where
  "write_nit_sot info store_steps i pos outputs offset_out j outs =
     (case setitem (if i = 0 then nit_sot_cell (store_steps ! j) (outs ! j) else outs ! j)
             (int (pos ! j)) (outputs ! out_slot info offset_out j) of
        Inl e \<Rightarrow> Inl e
      | Inr cell \<Rightarrow> Inr (outs[j := cell]))"

text \<open>The slot of the condition: \<^verbatim>\<open>pdx = offset + self.n_shared_outs\<close>.\<close>

definition cond_slot :: "scan_info \<Rightarrow> nat" where
  "cond_slot info =
     n_mit_mot_outs info + (n_outs info + n_nit_sot info - n_mit_mot info) + n_shared_outs info"

text \<open>
  One iteration: steps 3 to 5.4, then the positions and the counter advance. Step 4
  only hands entries of the buffers to the inner function as places to write its
  outputs to; the values that the outputs have are those that the function returns.
\<close>

definition loop_body :: "'a::zero scan_env \<Rightarrow> 'a loop_state \<Rightarrow> error + 'a loop_state" where
  "loop_body env st =
     (let info = e_info env in
      case inner_inputs env st of
        Inl e \<Rightarrow> Inl e
      | Inr ins \<Rightarrow>
      (case e_fn env ins of
        Inl e \<Rightarrow> Inl e
      | Inr outputs \<Rightarrow>
      (case scatter_mit_mot info (st_pos st) outputs (st_outs st) of
        Inl e \<Rightarrow> Inl e
      | Inr (outs1, offset_out) \<Rightarrow>
      (case fold_err (write_sot info (st_pos st) outputs offset_out)
              [n_mit_mot info..<n_outs info] outs1 of
        Inl e \<Rightarrow> Inl e
      | Inr outs2 \<Rightarrow>
      (case fold_err (write_nit_sot info (e_store_steps env) (st_i st) (st_pos st) outputs
                        offset_out)
              [n_outs info..<n_outs info + n_nit_sot info] outs2 of
        Inl e \<Rightarrow> Inl e
      | Inr outs3 \<Rightarrow>
          Inr \<lparr>st_i = Suc (st_i st),
               st_cond = (if as_while info then outputs ! cond_slot info = 0 else st_cond st),
               st_pos = map2 (\<lambda>p store. nat (numpy_mod (int p + 1) (int store))) (st_pos st)
                        (e_store_steps env),
               st_outs = outs3,
               st_shared =
                 map (\<lambda>j. outputs ! out_slot info offset_out j)
                   [n_outs info + n_nit_sot info..<
                    n_outs info + n_nit_sot info + n_shared_outs info]\<rparr>)))))"

text \<open>\<^verbatim>\<open>while (i < n_steps) and cond\<close>\<close>

definition loop_guard :: "'a scan_env \<Rightarrow> 'a loop_state \<Rightarrow> bool" where
  "loop_guard env st = (st_i st < e_n_steps env \<and> st_cond st)"

function main_loop :: "'a::zero scan_env \<Rightarrow> 'a loop_state \<Rightarrow> error + 'a loop_state" where
  "main_loop env st =
     (if loop_guard env st
      then (case loop_body env st of Inl e \<Rightarrow> Inl e | Inr st' \<Rightarrow> main_loop env st')
      else Inr st)"
  by pat_completeness auto
termination
proof (relation "measure (\<lambda>(env, st). e_n_steps env - st_i st)")
  show "wf (measure (\<lambda>(env, st). e_n_steps env - st_i st))" by simp
next
  fix env :: "'a scan_env" and st st' :: "'a loop_state"
  assume g: "loop_guard env st" and b: "loop_body env st = Inr st'"
  from b have "st_i st' = Suc (st_i st)"
    by (auto simp: loop_body_def Let_def split: sum.splits prod.splits)
  with g show "((env, st'), (env, st)) \<in> measure (\<lambda>(env, st). e_n_steps env - st_i st)"
    by (auto simp: loop_guard_def)
qed

declare main_loop.simps [simp del]

subsection \<open>Step 6: re-ordering the output buffers\<close>

text \<open>
  The rotation of a wrapped buffer: one part goes to the temporary \<open>tmp\<close> (allocated
  with \<open>pdx\<close>, respectively \<open>store - pdx\<close>, entries and filled by \<^verbatim>\<open>tmp[:] = ...\<close>), the
  other part is moved inside the buffer, and \<open>tmp\<close> is written back. The temporary is
  made by \<^verbatim>\<open>numpy.empty(shape)\<close>, an array of dtype \<^verbatim>\<open>float64\<close> whatever the dtype of
  the buffer is: the entries that pass through it are converted to \<^verbatim>\<open>float64\<close> and,
  when \<open>tmp\<close> is written back, to the dtype of the buffer again. An entry of \<open>tmp\<close> is
  modelled by the value \<open>via x\<close> that comes back for the entry \<open>x\<close>. (The branch for a
  \<^verbatim>\<open>CudaNdarray\<close> buffer, whose temporary is \<^verbatim>\<open>float32\<close> as the buffer, is not
  modelled.) The result is the temporary together with the buffer.
\<close>

definition rotate_out ::
  "('a \<Rightarrow> 'a) \<Rightarrow> nat \<Rightarrow> nat \<Rightarrow> 'a list \<Rightarrow> error + 'a list \<times> 'a list" where
  "rotate_out via store pdx buf =
     (if pdx < store div 2
      then (case fit_slice pdx (map via (py_take (int pdx) buf)) of
              Inl e \<Rightarrow> Inl e
            | Inr tmp \<Rightarrow>
            (case assign_head buf (int store - int pdx) (py_drop (int pdx) buf) of
              Inl e \<Rightarrow> Inl e
            | Inr buf1 \<Rightarrow>
            (case assign_tail buf1 (int store - int pdx) tmp of
              Inl e \<Rightarrow> Inl e
            | Inr buf2 \<Rightarrow> Inr (tmp, buf2))))
      else (case fit_slice (store - pdx) (map via (py_drop (int pdx) buf)) of
              Inl e \<Rightarrow> Inl e
            | Inr tmp \<Rightarrow>
            (case assign_tail buf (int store - int pdx) (py_take (int pdx) buf) of
              Inl e \<Rightarrow> Inl e
            | Inr buf1 \<Rightarrow>
            (case assign_head buf1 (int store - int pdx) tmp of
              Inl e \<Rightarrow> Inl e
            | Inr buf2 \<Rightarrow> Inr (tmp, buf2)))))"

text \<open>
  The three-way branch for one output after the mit-mot block, on its cell: rotate,
  or zero the tail from \<^verbatim>\<open>i - mintaps[idx]\<close> and cut \<^verbatim>\<open>[:-(n_steps - i)]\<close> when the loop
  stopped early, or leave the cell alone.
\<close>

definition reorder_cell ::
  "'a::zero scan_env \<Rightarrow> 'a loop_state \<Rightarrow> nat \<Rightarrow> 'a list option \<Rightarrow> error + 'a list option" where
  "reorder_cell env st idx cell =
     (let store = e_store_steps env ! idx;
          min_tap = mintaps (e_info env) ! idx;
          pdx = st_pos st ! idx
      in if int store < int (st_i st) - min_tap \<and> pdx < store
         then (case cell of
                 None \<Rightarrow> Inl TypeError
               | Some buf \<Rightarrow>
                   (case rotate_out (e_via_float64 env) store pdx buf of
                      Inl e \<Rightarrow> Inl e | Inr (tmp, buf') \<Rightarrow> Inr (Some buf')))
         else if int store > int (st_i st) - min_tap
         then (case cell of
                 None \<Rightarrow> Inl TypeError
               | Some buf \<Rightarrow>
                   if st_i st < e_n_steps env
                   then Inr (Some (py_take (- (int (e_n_steps env) - int (st_i st)))
                                     (zero_tail (int (st_i st) - min_tap) buf)))
                   else Inr (Some (zero_tail (int (st_i st) - min_tap) buf)))
         else Inr cell)"

definition reorder_step ::
  "'a::zero scan_env \<Rightarrow> 'a loop_state \<Rightarrow> nat \<Rightarrow> 'a list option list
     \<Rightarrow> error + 'a list option list" where
  "reorder_step env st idx outs =
     (case reorder_cell env st idx (outs ! idx) of
        Inl e \<Rightarrow> Inl e | Inr cell \<Rightarrow> Inr (outs[idx := cell]))"

definition reorder :: "'a::zero scan_env \<Rightarrow> 'a loop_state \<Rightarrow> error + 'a list option list" where
  "reorder env st =
     fold_err (reorder_step env st)
       [n_mit_mot (e_info env)..<n_outs (e_info env) + n_nit_sot (e_info env)] (st_outs st)"

subsection \<open>The whole of \<^verbatim>\<open>execute\<close>\<close>

text \<open>
  Steps 1 and 2: the environment of the loop and its first state. \<open>fn\<close> is the
  compiled inner function and \<open>via\<close> the round trip through \<^verbatim>\<open>float64\<close> of the dtype of
  its outputs; \<open>outs\<close> are the caller's cells of the tap and nit-sot outputs, \<open>shared\<close>
  those of the shared outputs.
\<close>

definition prepare ::
  "scan_info \<Rightarrow> ('a list \<Rightarrow> error + 'a list) \<Rightarrow> ('a \<Rightarrow> 'a) \<Rightarrow> 'a scan_args
     \<Rightarrow> 'a list option list \<Rightarrow> 'a list \<Rightarrow> error + 'a scan_env \<times> 'a loop_state" where
  "prepare info fn via args outs shared =
     (case unzip_steps args of
        Inl e \<Rightarrow> Inl e
      | Inr (n, seqs) \<Rightarrow>
      (case map_err (alloc_out info args (store_steps_of args) outs) [0..<n_outs info] of
        Inl e \<Rightarrow> Inl e
      | Inr cells \<Rightarrow>
          Inr (\<lparr>e_info = info, e_fn = fn, e_via_float64 = via, e_args = args, e_n_steps = n,
                e_seqs = seqs, e_store_steps = store_steps_of args\<rparr>,
               \<lparr>st_i = 0, st_cond = True, st_pos = init_pos info (store_steps_of args),
                st_outs = cells @ drop (n_outs info) outs, st_shared = shared\<rparr>)))"

definition execute ::
  "scan_info \<Rightarrow> ('a::zero list \<Rightarrow> error + 'a list) \<Rightarrow> ('a \<Rightarrow> 'a) \<Rightarrow> 'a scan_args
     \<Rightarrow> 'a list option list \<Rightarrow> 'a list \<Rightarrow> error + 'a list option list \<times> 'a list" where
  "execute info fn via args outs shared =
     (case prepare info fn via args outs shared of
        Inl e \<Rightarrow> Inl e
      | Inr (env, st0) \<Rightarrow>
      (case main_loop env st0 of
        Inl e \<Rightarrow> Inl e
      | Inr st \<Rightarrow>
      (case reorder env st of
        Inl e \<Rightarrow> Inl e
      | Inr outs' \<Rightarrow> Inr (outs', st_shared st))))"

text \<open>
  The state at the head of the loop after at most \<open>k\<close> iterations from \<open>st\<close>: the
  guard is tested before each of them, and a state whose guard fails stays.
\<close>

primrec loop_iter :: "'a::zero scan_env \<Rightarrow> nat \<Rightarrow> 'a loop_state \<Rightarrow> error + 'a loop_state" where
  "loop_iter env 0 st = Inr st"
| "loop_iter env (Suc k) st =
     (case loop_iter env k st of
        Inl e \<Rightarrow> Inl e
      | Inr st' \<Rightarrow> if loop_guard env st' then loop_body env st' else Inr st')"

section \<open>The gradient constructor\<close>

subsection \<open>The tap structure of the backward op\<close>

text \<open>
  \<^verbatim>\<open>Scan.grad\<close> builds \<^verbatim>\<open>mit_mot_taps\<close>, \<^verbatim>\<open>mit_mot_out_slices\<close> and the counter
  \<^verbatim>\<open>n_mit_mot_outs\<close> in three loops, appending to the list of a channel by index.
\<close>

record tap_build =
  b_taps :: "int list list"
  b_out_slices :: "int list list"
  b_n_mit_mot_outs :: nat

definition append_at :: "'a list list \<Rightarrow> nat \<Rightarrow> 'a \<Rightarrow> 'a list list" where
  "append_at xss i v = xss[i := xss ! i @ [v]]"

text \<open>The loop over the forward mit-mot outputs.\<close>

definition grad_mit_mot :: "scan_info \<Rightarrow> nat \<Rightarrow> tap_build \<Rightarrow> tap_build" where
  "grad_mit_mot info idx b =
     (let b1 = b\<lparr>b_taps := b_taps b @ [[]], b_out_slices := b_out_slices b @ [[]]\<rparr>;
          b2 = fold (\<lambda>jdx b. b\<lparr>b_taps :=
                        append_at (b_taps b) idx (- (mit_mot_out_slices info ! idx ! jdx))\<rparr>)
                 [0..<length (mit_mot_out_slices info ! idx)] b1
      in fold (\<lambda>jdx b. b\<lparr>b_n_mit_mot_outs := Suc (b_n_mit_mot_outs b),
                          b_taps := append_at (b_taps b) idx (- (tap_array info ! idx ! jdx)),
                          b_out_slices :=
                            append_at (b_out_slices b) idx (- (tap_array info ! idx ! jdx))\<rparr>)
           [0..<length (tap_array info ! idx)] b2)"

text \<open>
  The loop over the forward mit-sot outputs, with \<^verbatim>\<open>offset = self.n_mit_mot\<close>: the taps
  go to \<^verbatim>\<open>mit_mot_taps[idx + offset]\<close>, the out slices to \<^verbatim>\<open>mit_mot_out_slices[idx]\<close>.
\<close>

definition grad_mit_sot :: "scan_info \<Rightarrow> nat \<Rightarrow> tap_build \<Rightarrow> tap_build" where
  "grad_mit_sot info idx b =
     (let offset = n_mit_mot info;
          idx_tap = idx + n_mit_mot info;
          b1 = b\<lparr>b_taps := b_taps b @ [[]], b_out_slices := b_out_slices b @ [[]]\<rparr>;
          b2 = fold (\<lambda>jdx b. b\<lparr>b_taps :=
                        append_at (b_taps b) (idx + offset) (- (tap_array info ! idx_tap ! jdx)),
                      b_out_slices :=
                        append_at (b_out_slices b) idx (- (tap_array info ! idx_tap ! jdx)),
                      b_n_mit_mot_outs := Suc (b_n_mit_mot_outs b)\<rparr>)
                 [0..<length (tap_array info ! idx_tap)] b1
      in b2\<lparr>b_taps := append_at (b_taps b2) (idx + offset) 0\<rparr>)"

text \<open>The loop over the forward sit-sot outputs.\<close>

definition grad_sit_sot :: "nat \<Rightarrow> tap_build \<Rightarrow> tap_build" where
  "grad_sit_sot idx b =
     b\<lparr>b_taps := b_taps b @ [[0, 1]], b_out_slices := b_out_slices b @ [[1]],
       b_n_mit_mot_outs := Suc (b_n_mit_mot_outs b)\<rparr>"

definition grad_taps :: "scan_info \<Rightarrow> tap_build" where
  "grad_taps info =
     fold grad_sit_sot [0..<n_sit_sot info]
       (fold (grad_mit_sot info) [0..<n_mit_sot info]
          (fold (grad_mit_mot info) [0..<n_mit_mot info]
             \<lparr>b_taps = [], b_out_slices = [], b_n_mit_mot_outs = 0\<rparr>))"

definition n_ins_mit_mot :: "scan_info \<Rightarrow> nat" where
  "n_ins_mit_mot info = sum_list (map (\<lambda>x. length (tap_array info ! x)) [0..<n_mit_mot info])"

definition n_ins_mit_sot :: "scan_info \<Rightarrow> nat" where
  "n_ins_mit_sot info =
     sum_list (map (\<lambda>x. length (tap_array info ! x))
                 [n_mit_mot info..<n_mit_mot info + n_mit_sot info])"

text \<open>
  The \<^verbatim>\<open>info\<close> of the backward op. \<open>n_other\<close> is the number of non-sequence inputs of
  the inner function (\<^verbatim>\<open>len(other_args)\<close>), each of which gets a shared accumulator.
\<close>

definition grad_info :: "scan_info \<Rightarrow> nat \<Rightarrow> scan_info" where
  "grad_info info n_other =
     \<lparr>n_seqs = n_seqs info + n_ins_mit_mot info + n_ins_mit_sot info + n_sit_sot info
                + n_nit_sot info,
      n_mit_mot = n_mit_mot info + n_mit_sot info + n_sit_sot info,
      n_mit_mot_outs = b_n_mit_mot_outs (grad_taps info),
      n_mit_sot = 0,
      n_sit_sot = 0,
      n_nit_sot = n_seqs info,
      n_shared_outs = n_other + n_shared_outs info,
      tap_array = b_taps (grad_taps info),
      mit_mot_out_slices = b_out_slices (grad_taps info),
      truncate_gradient = truncate_gradient info,
      as_while = as_while info,
      inplace = False\<rparr>"

subsection \<open>The number of backward steps\<close>

text \<open>
  \<^verbatim>\<open>do_steps\<close>, the first input of the backward op; \<open>n_steps\<close> is \<^verbatim>\<open>args[0]\<close> of the
  forward op and \<^verbatim>\<open>tensor.minimum\<close> is the minimum of the two scalars.
\<close>

definition do_steps :: "scan_info \<Rightarrow> int \<Rightarrow> int" where
  "do_steps info n_steps =
     (if truncate_gradient info \<noteq> - 1 then min n_steps (truncate_gradient info) else n_steps)"

subsection \<open>Summing the gradients of the inner graph\<close>







section \<open>Basic properties of the model\<close>

subsection \<open>Lists, cells, slices and arithmetic\<close>

lemma map_err_length: "map_err f xs = Inr ys \<Longrightarrow> length ys = length xs"
  by (induction xs arbitrary: ys) (auto split: sum.splits)

lemma map_err_nth:
  assumes "map_err f xs = Inr ys" and "i < length xs"
  shows "f (xs ! i) = Inr (ys ! i)"
  using assms
proof (induction xs arbitrary: ys i)
  case Nil
  then show ?case by simp
next
  case (Cons x xs)
  from Cons.prems(1) obtain y ys' where
    y: "f x = Inr y" and r: "map_err f xs = Inr ys'" and ys: "ys = y # ys'"
    by (auto split: sum.splits)
  show ?case
  proof (cases i)
    case 0
    with y ys show ?thesis by simp
  next
    case (Suc i')
    with Cons.prems(2) have "i' < length xs" by simp
    from Cons.IH [OF r this] Suc ys show ?thesis by simp
  qed
qed

lemma map_err_Inr:
  assumes "map_err f xs = Inr ys"
  shows "length ys = length xs" and "i < length xs \<Longrightarrow> f (xs ! i) = Inr (ys ! i)"
  using map_err_length [OF assms] map_err_nth [OF assms] by simp_all

lemma setitem_Inr:
  assumes "setitem cell i v = Inr cell'"
  shows "\<exists>buf j. cell = Some buf \<and> py_index (length buf) i = Inr j \<and> cell' = Some (buf[j := v])"
  using assms by (auto simp: setitem_def split: option.splits sum.splits)

lemma setitem_length:
  "setitem cell i v = Inr cell' \<Longrightarrow> map_option length cell' = map_option length cell"
  by (auto dest!: setitem_Inr)

lemma py_index_nat: "i < len \<Longrightarrow> py_index len (int i) = Inr i"
  by (simp add: py_index_def)

lemma setitem_in_range:
  "i < length buf \<Longrightarrow> setitem (Some buf) (int i) v = Inr (Some (buf[i := v]))"
  by (simp add: setitem_def py_index_nat)

lemma getitem_in_range:
  "i < length buf \<Longrightarrow> getitem (Some buf) (int i) = Inr (buf ! i)"
  by (simp add: getitem_def py_index_nat)

lemma fit_slice_same: "length src = n \<Longrightarrow> fit_slice n src = Inr src"
  by (simp add: fit_slice_def)

lemma zero_tail_nth:
  assumes "0 \<le> a" and "k < length buf"
  shows "zero_tail a buf ! k = (if int k < a then buf ! k else 0)"
  using assms by (auto simp: zero_tail_def slice_bound_def nth_append)

lemma length_zero_tail: "length (zero_tail a buf) = length buf"
  by (simp add: zero_tail_def slice_bound_def)

lemma py_take_neg:
  "0 < m \<Longrightarrow> py_take (- int m) buf = take (length buf - m) buf"
  by (simp add: py_take_def slice_bound_def nat_diff_distrib')

lemma fold_min_le: "fold min xs a \<le> (a::int) \<and> (\<forall>x\<in>set xs. fold min xs a \<le> x)"
proof (induction xs arbitrary: a)
  case Nil
  show ?case by simp
next
  case (Cons y ys)
  from Cons.IH [of "min y a"] show ?case by auto
qed

lemma numpy_min_le: "tap \<in> set xs \<Longrightarrow> numpy_min xs \<le> tap"
  using fold_min_le [of "tl xs" "hd xs"] by (cases xs) (auto simp: numpy_min_def)

lemma numpy_mod_pos: "0 < S \<Longrightarrow> numpy_mod a (int S) = a mod int S"
  by (simp add: numpy_mod_def)

lemma numpy_mod_range:
  "0 < S \<Longrightarrow> 0 \<le> numpy_mod a (int S) \<and> numpy_mod a (int S) < int S"
  by (simp add: numpy_mod_def)

lemma pos_advance:
  "nat (numpy_mod (int (nat (numpy_mod a (int S))) + 1) (int S)) = nat (numpy_mod (a + 1) (int S))"
proof (cases "S = 0")
  case True
  then show ?thesis by (simp add: numpy_mod_def)
next
  case False
  then have S: "0 < S" by simp
  have "int (nat (a mod int S)) = a mod int S" using S by simp
  moreover have "(a mod int S + 1) mod int S = (a + 1) mod int S" by (simp add: mod_add_left_eq)
  ultimately show ?thesis using S by (simp add: numpy_mod_def)
qed

lemma pos_closed_form:
  "nat (numpy_mod (int i - m) (int S)) =
     nat (numpy_mod (int (nat (numpy_mod (- m) (int S))) + int i) (int S))"
proof (cases "S = 0")
  case True
  then show ?thesis by (simp add: numpy_mod_def)
next
  case False
  then have S: "0 < S" by simp
  have "int (nat ((- m) mod int S)) = (- m) mod int S" using S by simp
  moreover have "((- m) mod int S + int i) mod int S = (- m + int i) mod int S"
    by (simp add: mod_add_left_eq)
  moreover have "- m + int i = int i - m" by simp
  ultimately show ?thesis using S by (simp add: numpy_mod_def)
qed

lemma mod_shift_neq:
  assumes "0 < d" and "d < S"
  shows "(a + d) mod S \<noteq> a mod (S::int)"
proof
  assume "(a + d) mod S = a mod S"
  then have "S dvd (a + d) - a" by (simp only: mod_eq_dvd_iff)
  then have "S dvd d" by simp
  with assms show False by (simp add: zdvd_not_zless)
qed

subsection \<open>Steps 1 and 2\<close>

lemma collect_seqs_short:
  "\<exists>seq\<in>set seqs. length seq < n \<Longrightarrow> collect_seqs flip n seqs = Inl ValueError"
proof (induction seqs)
  case Nil
  then show ?case by simp
next
  case (Cons a seqs)
  show ?case
  proof (cases "length a < n")
    case True
    then show ?thesis by simp
  next
    case False
    with Cons.prems have "\<exists>seq\<in>set seqs. length seq < n" by auto
    then have "collect_seqs flip n seqs = Inl ValueError" by (rule Cons.IH)
    with False show ?thesis by simp
  qed
qed

lemma collect_seqs_Inr:
  "collect_seqs flip n seqs = Inr r \<Longrightarrow>
     r = map (\<lambda>s. if flip then rev s else s) seqs \<and> (\<forall>s\<in>set seqs. n \<le> length s)"
  by (induction seqs arbitrary: r) (auto split: sum.splits if_splits)

lemma unzip_steps_Inr:
  assumes "unzip_steps args = Inr (n, seqs)"
  shows "n = nat \<bar>arg_n_steps args\<bar>"
    and "seqs = map (\<lambda>s. if arg_n_steps args < 0 then rev s else s) (arg_seqs args)"
    and "\<forall>s\<in>set (arg_seqs args). n \<le> length s"
  using assms
  by (auto simp: unzip_steps_def split: if_splits sum.splits dest!: collect_seqs_Inr)

lemma prepare_Inr:
  assumes "prepare info fn via args outs shared = Inr (env, st0)"
  shows "e_info env = info" "e_fn env = fn" "e_args env = args"
    "e_store_steps env = store_steps_of args"
    "unzip_steps args = Inr (e_n_steps env, e_seqs env)"
    "st_i st0 = 0" "st_cond st0" "st_pos st0 = init_pos info (store_steps_of args)"
    "e_via_float64 env = via"
  using assms by (auto simp: prepare_def split: sum.splits prod.splits)

text \<open>
  A call is well formed when the lists of the op and of the arguments have the
  lengths that the counts of the op announce.
\<close>

definition wf_call :: "scan_info \<Rightarrow> 'a scan_args \<Rightarrow> 'a list option list \<Rightarrow> bool" where
  "wf_call info args outs \<longleftrightarrow>
     length (tap_array info) = n_outs info \<and>
     length (arg_init args) = n_outs info \<and>
     length (arg_nit_sot args) = n_nit_sot info \<and>
     length outs = n_outs info + n_nit_sot info"

lemma wf_lengths:
  assumes "wf_call info args outs"
  shows "length (store_steps_of args) = n_outs info + n_nit_sot info"
    and "length (mintaps info) = n_outs info + n_nit_sot info"
    and "idx < n_outs info \<Longrightarrow> store_steps_of args ! idx = length (arg_init args ! idx)"
    and "idx < n_outs info \<Longrightarrow> mintaps info ! idx = numpy_min (tap_array info ! idx)"
    and "n_outs info \<le> idx \<Longrightarrow> idx < n_outs info + n_nit_sot info \<Longrightarrow> mintaps info ! idx = 0"
  using assms by (auto simp: wf_call_def store_steps_of_def mintaps_def nth_append)

lemma init_pos_nth:
  shows "length (init_pos info store) = n_outs info + n_nit_sot info"
    and "idx < n_outs info + n_nit_sot info \<Longrightarrow>
           init_pos info store ! idx = nat (numpy_mod (- (mintaps info ! idx)) (int (store ! idx)))"
  by (simp_all add: init_pos_def)

lemma alloc_out_Inr:
  assumes "alloc_out info args store outs idx = Inr cell"
    and "store ! idx = length (arg_init args ! idx)"
  shows "\<exists>buf. cell = Some buf \<and> length buf = store ! idx \<and>
           (\<forall>k<slice_bound (store ! idx) (- (mintaps info ! idx)). buf ! k = arg_init args ! idx ! k)"
proof -
  let ?init = "arg_init args ! idx" and ?S = "store ! idx" and ?n = "- (mintaps info ! idx)"
  have direct: ?thesis if "cell = Some ?init"
    using that assms(2) by simp
  show ?thesis
  proof (cases "\<not> inplace info \<and> (\<exists>buf. outs ! idx = Some buf \<and> ?S \<le> length buf) \<and>
                n_mit_mot info < idx")
    case False
    with assms(1) have "cell = Some ?init"
      by (auto simp: alloc_out_def Let_def split: option.splits if_splits)
    then show ?thesis by (rule direct)
  next
    case True
    then obtain buf where b: "outs ! idx = Some buf" "?S \<le> length buf" by blast
    let ?sb = "slice_bound ?S ?n"
    have sb: "?sb \<le> ?S" by (auto simp: slice_bound_def)
    have src: "length (py_take ?n ?init) = ?sb" using assms(2) sb by (simp add: py_take_def)
    have lb: "length (take ?S buf) = ?S" using b by simp
    have "assign_head (take ?S buf) ?n (py_take ?n ?init)
            = Inr (py_take ?n ?init @ drop ?sb (take ?S buf))"
      unfolding assign_head_def lb by (simp add: fit_slice_same [OF src])
    with assms(1) True b have c: "cell = Some (py_take ?n ?init @ drop ?sb (take ?S buf))"
      by (simp add: alloc_out_def Let_def)
    have "length (py_take ?n ?init @ drop ?sb (take ?S buf)) = ?S"
      using src lb sb by simp
    moreover have "\<forall>k<?sb. (py_take ?n ?init @ drop ?sb (take ?S buf)) ! k = ?init ! k"
      using src assms(2) by (simp add: nth_append py_take_def)
    ultimately show ?thesis using c by blast
  qed
qed

lemma prepare_cells:
  assumes "wf_call info args outs" and "prepare info fn via args outs shared = Inr (env, st0)"
  shows "length (st_outs st0) = n_outs info + n_nit_sot info"
    and "idx < n_outs info \<Longrightarrow>
           \<exists>buf. st_outs st0 ! idx = Some buf \<and> length buf = store_steps_of args ! idx \<and>
             (\<forall>k<slice_bound (store_steps_of args ! idx) (- (mintaps info ! idx)).
                buf ! k = arg_init args ! idx ! k)"
proof -
  from assms(2) obtain cells where
    c: "map_err (alloc_out info args (store_steps_of args) outs) [0..<n_outs info] = Inr cells"
    and o: "st_outs st0 = cells @ drop (n_outs info) outs"
    by (auto simp: prepare_def split: sum.splits prod.splits)
  note m = map_err_Inr [OF c]
  from m(1) have lc: "length cells = n_outs info" by simp
  show "length (st_outs st0) = n_outs info + n_nit_sot info"
    using o lc assms(1) by (simp add: wf_call_def)
  show "\<exists>buf. st_outs st0 ! idx = Some buf \<and> length buf = store_steps_of args ! idx \<and>
             (\<forall>k<slice_bound (store_steps_of args ! idx) (- (mintaps info ! idx)).
                buf ! k = arg_init args ! idx ! k)"
    if "idx < n_outs info"
  proof -
    from m(2) [of idx] that
    have a: "alloc_out info args (store_steps_of args) outs idx = Inr (cells ! idx)" by simp
    have "st_outs st0 ! idx = cells ! idx" using o lc that by (simp add: nth_append)
    with alloc_out_Inr [OF a wf_lengths(3) [OF assms(1) that]] show ?thesis by simp
  qed
qed

subsection \<open>One iteration\<close>

lemma loop_body_i: "loop_body env st = Inr st' \<Longrightarrow> st_i st' = Suc (st_i st)"
  by (auto simp: loop_body_def Let_def split: sum.splits prod.splits)

lemma inner_inputs_seq:
  assumes "inner_inputs env st = Inr ins" and "idx < n_seqs (e_info env)"
  shows "ins ! idx = e_seqs env ! idx ! st_i st"
  using assms
  by (auto simp: inner_inputs_def nth_append split: sum.splits)

text \<open>
  A loop over distinct indices whose body replaces the cell of its own index by
  a function of that cell.
\<close>

lemma fold_err_cells:
  assumes "\<And>j outs. f j outs =
             (case g j (outs ! j) of Inl e \<Rightarrow> Inl e | Inr c \<Rightarrow> Inr (outs[j := c]))"
    and "fold_err f xs outs = Inr outs'" and "distinct xs"
  shows "length outs' = length outs \<and>
         (\<forall>i\<in>set xs. i < length outs \<longrightarrow> g i (outs ! i) = Inr (outs' ! i)) \<and>
         (\<forall>i. i \<notin> set xs \<longrightarrow> outs' ! i = outs ! i)"
  using assms(2,3)
proof (induction xs arbitrary: outs)
  case Nil
  then show ?case by simp
next
  case (Cons x xs)
  from Cons.prems(1) obtain s' where
    s: "f x outs = Inr s'" and r': "fold_err f xs s' = Inr outs'"
    by (auto split: sum.splits)
  from s obtain cell where
    c: "g x (outs ! x) = Inr cell" and s': "s' = outs[x := cell]"
    by (auto simp: assms(1) split: sum.splits)
  from r' s' have r: "fold_err f xs (outs[x := cell]) = Inr outs'" by simp
  from Cons.prems(2) have d: "distinct xs" and nx: "x \<notin> set xs" by simp_all
  note ih = Cons.IH [OF r d]
  have l: "length outs' = length outs" using ih by simp
  have x: "x < length outs \<longrightarrow> g x (outs ! x) = Inr (outs' ! x)"
    using ih nx c by simp
  have o: "\<forall>i\<in>set xs. i < length outs \<longrightarrow> g i (outs ! i) = Inr (outs' ! i)"
  proof
    fix i assume i: "i \<in> set xs"
    with nx have "i \<noteq> x" by auto
    then show "i < length outs \<longrightarrow> g i (outs ! i) = Inr (outs' ! i)"
      using ih i by auto
  qed
  have u: "\<forall>i. i \<notin> set (x # xs) \<longrightarrow> outs' ! i = outs ! i"
    using ih by auto
  from l x o u show ?case by simp
qed

lemma write_sot_fold:
  assumes "fold_err (write_sot info pos outputs off) xs outs = Inr outs'" and "distinct xs"
  shows "length outs' = length outs \<and>
         (\<forall>i\<in>set xs. i < length outs \<longrightarrow>
            setitem (outs ! i) (int (pos ! i)) (outputs ! out_slot info off i) = Inr (outs' ! i)) \<and>
         (\<forall>i. i \<notin> set xs \<longrightarrow> outs' ! i = outs ! i)"
  by (rule fold_err_cells [OF _ assms, where g = "\<lambda>j c. setitem c (int (pos ! j)) (outputs ! out_slot info off j)"])
    (simp add: write_sot_def)

lemma write_nit_sot_fold:
  assumes "fold_err (write_nit_sot info store i pos outputs off) xs outs = Inr outs'"
    and "distinct xs"
  shows "length outs' = length outs \<and>
         (\<forall>j\<in>set xs. j < length outs \<longrightarrow>
            setitem (if i = 0 then nit_sot_cell (store ! j) (outs ! j) else outs ! j)
              (int (pos ! j)) (outputs ! out_slot info off j) = Inr (outs' ! j)) \<and>
         (\<forall>j. j \<notin> set xs \<longrightarrow> outs' ! j = outs ! j)"
  by (rule fold_err_cells [OF _ assms, where g = "\<lambda>j c. setitem (if i = 0 then nit_sot_cell (store ! j) c else c) (int (pos ! j)) (outputs ! out_slot info off j)"])
    (simp add: write_nit_sot_def)

text \<open>The slices of one mit-mot output, and the loop over the mit-mot outputs.\<close>

lemma write_slices_fold:
  assumes "fold_err (write_mit_mot_slice pos outputs j) ks s = Inr s'"
  shows "snd s' = snd s + length ks \<and> length (fst s') = length (fst s) \<and>
         (\<forall>i. i \<noteq> j \<longrightarrow> fst s' ! i = fst s ! i) \<and>
         (j < length (fst s) \<longrightarrow> map_option length (fst s' ! j) = map_option length (fst s ! j))"
  using assms
proof (induction ks arbitrary: s)
  case Nil
  then show ?case by simp
next
  case (Cons k ks)
  from Cons.prems obtain t where
    t: "write_mit_mot_slice pos outputs j k s = Inr t" and
    r: "fold_err (write_mit_mot_slice pos outputs j) ks t = Inr s'"
    by (auto split: sum.splits)
  from t obtain cell where
    c: "setitem (fst s ! j) (k + int (pos ! j)) (outputs ! snd s) = Inr cell" and
    t': "t = ((fst s)[j := cell], Suc (snd s))"
    by (auto simp: write_mit_mot_slice_def split: sum.splits)
  note ih = Cons.IH [OF r]
  from ih t' setitem_length [OF c] show ?case by auto
qed

definition mit_mot_offset :: "scan_info \<Rightarrow> nat" where
  "mit_mot_offset info =
     sum_list (map (\<lambda>j. length (mit_mot_out_slices info ! j)) [0..<n_mit_mot info])"

lemma mit_mot_fold:
  assumes "fold_err (\<lambda>j. fold_err (write_mit_mot_slice pos outputs j) (slices ! j)) js s = Inr s'"
  shows "snd s' = snd s + sum_list (map (\<lambda>j. length (slices ! j)) js) \<and>
         length (fst s') = length (fst s) \<and>
         (\<forall>i. i \<notin> set js \<longrightarrow> fst s' ! i = fst s ! i) \<and>
         (\<forall>i<length (fst s). map_option length (fst s' ! i) = map_option length (fst s ! i))"
  using assms
proof (induction js arbitrary: s)
  case Nil
  then show ?case by simp
next
  case (Cons j js)
  from Cons.prems obtain t where
    t1: "fold_err (write_mit_mot_slice pos outputs j) (slices ! j) s = Inr t" and
    r: "fold_err (\<lambda>j. fold_err (write_mit_mot_slice pos outputs j) (slices ! j)) js t = Inr s'"
    by (auto split: sum.splits)
  note w = write_slices_fold [OF t1]
  note ih = Cons.IH [OF r]
  have len: "length (fst s') = length (fst s)" using w ih by simp
  have off: "snd s' = snd s + sum_list (map (\<lambda>j. length (slices ! j)) (j # js))"
    using w ih by simp
  have frame: "\<forall>i. i \<notin> set (j # js) \<longrightarrow> fst s' ! i = fst s ! i"
    using w ih by auto
  have shape: "\<forall>i<length (fst s). map_option length (fst s' ! i) = map_option length (fst s ! i)"
  proof (intro allI impI)
    fix i assume i: "i < length (fst s)"
    have "map_option length (fst t ! i) = map_option length (fst s ! i)"
      using w i by (cases "i = j") auto
    moreover have "map_option length (fst s' ! i) = map_option length (fst t ! i)"
      using ih w i by simp
    ultimately show "map_option length (fst s' ! i) = map_option length (fst s ! i)" by simp
  qed
  from len off frame shape show ?case by blast
qed

lemma scatter_mit_mot_Inr:
  assumes "scatter_mit_mot info pos outputs outs = Inr (outs1, off)"
  shows "off = mit_mot_offset info" and "length outs1 = length outs"
    and "n_mit_mot info \<le> i \<Longrightarrow> outs1 ! i = outs ! i"
    and "i < length outs \<Longrightarrow> map_option length (outs1 ! i) = map_option length (outs ! i)"
  using mit_mot_fold [OF assms [unfolded scatter_mit_mot_def]]
  by (auto simp: mit_mot_offset_def)

lemma loop_body_Inr:
  assumes "loop_body env st = Inr st'"
  obtains ins outputs outs1 outs2 where
    "inner_inputs env st = Inr ins" and "e_fn env ins = Inr outputs"
    and "scatter_mit_mot (e_info env) (st_pos st) outputs (st_outs st)
           = Inr (outs1, mit_mot_offset (e_info env))"
    and "fold_err (write_sot (e_info env) (st_pos st) outputs (mit_mot_offset (e_info env)))
           [n_mit_mot (e_info env)..<n_outs (e_info env)] outs1 = Inr outs2"
    and "fold_err (write_nit_sot (e_info env) (e_store_steps env) (st_i st) (st_pos st) outputs
                     (mit_mot_offset (e_info env)))
           [n_outs (e_info env)..<n_outs (e_info env) + n_nit_sot (e_info env)] outs2
           = Inr (st_outs st')"
    and "st_i st' = Suc (st_i st)"
    and "st_cond st' =
           (if as_while (e_info env) then outputs ! cond_slot (e_info env) = 0 else st_cond st)"
    and "st_pos st' = map2 (\<lambda>p store. nat (numpy_mod (int p + 1) (int store))) (st_pos st)
                        (e_store_steps env)"
    and "st_shared st' =
           map (\<lambda>j. outputs ! out_slot (e_info env) (mit_mot_offset (e_info env)) j)
             [n_outs (e_info env) + n_nit_sot (e_info env)..<
              n_outs (e_info env) + n_nit_sot (e_info env) + n_shared_outs (e_info env)]"
proof -
  from assms obtain ins where i: "inner_inputs env st = Inr ins"
    by (auto simp: loop_body_def Let_def split: sum.splits)
  from assms i obtain outputs where f: "e_fn env ins = Inr outputs"
    by (auto simp: loop_body_def Let_def split: sum.splits)
  from assms i f obtain outs1 off where
    m: "scatter_mit_mot (e_info env) (st_pos st) outputs (st_outs st) = Inr (outs1, off)"
    by (auto simp: loop_body_def Let_def split: sum.splits prod.splits)
  have off: "off = mit_mot_offset (e_info env)" by (rule scatter_mit_mot_Inr(1) [OF m])
  from assms i f m obtain outs2 where
    s: "fold_err (write_sot (e_info env) (st_pos st) outputs off)
           [n_mit_mot (e_info env)..<n_outs (e_info env)] outs1 = Inr outs2"
    by (auto simp: loop_body_def Let_def split: sum.splits prod.splits)
  from assms i f m s obtain outs3 where
    n: "fold_err (write_nit_sot (e_info env) (e_store_steps env) (st_i st) (st_pos st) outputs off)
           [n_outs (e_info env)..<n_outs (e_info env) + n_nit_sot (e_info env)] outs2
           = Inr outs3"
    by (auto simp: loop_body_def Let_def split: sum.splits prod.splits)
  from assms i f m s n have st': "st' =
          \<lparr>st_i = Suc (st_i st),
           st_cond = (if as_while (e_info env) then outputs ! cond_slot (e_info env) = 0
                      else st_cond st),
           st_pos = map2 (\<lambda>p store. nat (numpy_mod (int p + 1) (int store))) (st_pos st)
                        (e_store_steps env),
           st_outs = outs3,
           st_shared = map (\<lambda>j. outputs ! out_slot (e_info env) off j)
                   [n_outs (e_info env) + n_nit_sot (e_info env)..<
                    n_outs (e_info env) + n_nit_sot (e_info env) + n_shared_outs (e_info env)]\<rparr>"
    by (simp add: loop_body_def Let_def)
  show thesis
    by (rule that [OF i f m [unfolded off] s [unfolded off]]) (simp_all add: st' n [unfolded off] off)
qed

lemma loop_body_cells:
  assumes "loop_body env st = Inr st'"
    and "inner_inputs env st = Inr ins" and "e_fn env ins = Inr outputs"
  shows "length (st_outs st') = length (st_outs st)"
    and "j < n_mit_mot (e_info env) \<Longrightarrow> j < length (st_outs st) \<Longrightarrow>
           map_option length (st_outs st' ! j) = map_option length (st_outs st ! j)"
    and "n_mit_mot (e_info env) \<le> j \<Longrightarrow> j < n_outs (e_info env) \<Longrightarrow> j < length (st_outs st) \<Longrightarrow>
           setitem (st_outs st ! j) (int (st_pos st ! j))
             (outputs ! out_slot (e_info env) (mit_mot_offset (e_info env)) j)
             = Inr (st_outs st' ! j)"
    and "n_outs (e_info env) \<le> j \<Longrightarrow> j < n_outs (e_info env) + n_nit_sot (e_info env) \<Longrightarrow>
         j < length (st_outs st) \<Longrightarrow>
           setitem (if st_i st = 0 then nit_sot_cell (e_store_steps env ! j) (st_outs st ! j)
                    else st_outs st ! j)
             (int (st_pos st ! j))
             (outputs ! out_slot (e_info env) (mit_mot_offset (e_info env)) j)
             = Inr (st_outs st' ! j)"
    and "n_outs (e_info env) + n_nit_sot (e_info env) \<le> j \<Longrightarrow> st_outs st' ! j = st_outs st ! j"
proof -
  from assms(1) obtain ins' outputs' outs1 outs2 where
    i: "inner_inputs env st = Inr ins'" and f: "e_fn env ins' = Inr outputs'" and
    m: "scatter_mit_mot (e_info env) (st_pos st) outputs' (st_outs st)
           = Inr (outs1, mit_mot_offset (e_info env))" and
    s: "fold_err (write_sot (e_info env) (st_pos st) outputs' (mit_mot_offset (e_info env)))
           [n_mit_mot (e_info env)..<n_outs (e_info env)] outs1 = Inr outs2" and
    n: "fold_err (write_nit_sot (e_info env) (e_store_steps env) (st_i st) (st_pos st) outputs'
                     (mit_mot_offset (e_info env)))
           [n_outs (e_info env)..<n_outs (e_info env) + n_nit_sot (e_info env)] outs2
           = Inr (st_outs st')"
    by (rule loop_body_Inr)
  from i f assms(2,3) have eq: "outputs' = outputs" by simp
  note M = scatter_mit_mot_Inr [OF m]
  note S = write_sot_fold [OF s distinct_upt]
  note N = write_nit_sot_fold [OF n distinct_upt]
  have mn: "n_mit_mot (e_info env) \<le> n_outs (e_info env)" by (simp add: n_outs_def)
  show "length (st_outs st') = length (st_outs st)" using M S N by simp
  show "map_option length (st_outs st' ! j) = map_option length (st_outs st ! j)"
    if "j < n_mit_mot (e_info env)" "j < length (st_outs st)"
    using that M(4) [of j] S N mn by simp
  show "setitem (st_outs st ! j) (int (st_pos st ! j))
             (outputs ! out_slot (e_info env) (mit_mot_offset (e_info env)) j)
             = Inr (st_outs st' ! j)"
    if "n_mit_mot (e_info env) \<le> j" "j < n_outs (e_info env)" "j < length (st_outs st)"
  proof -
    from that have a: "j \<in> set [n_mit_mot (e_info env)..<n_outs (e_info env)]" by simp
    from that have b: "j \<notin> set [n_outs (e_info env)..<n_outs (e_info env) + n_nit_sot (e_info env)]"
      by simp
    have "setitem (outs1 ! j) (int (st_pos st ! j))
             (outputs' ! out_slot (e_info env) (mit_mot_offset (e_info env)) j) = Inr (outs2 ! j)"
      using S a that(3) M(2) by simp
    moreover have "outs1 ! j = st_outs st ! j" by (rule M(3) [OF that(1)])
    moreover have "st_outs st' ! j = outs2 ! j" using N b by blast
    ultimately show ?thesis using eq by simp
  qed
  show "setitem (if st_i st = 0 then nit_sot_cell (e_store_steps env ! j) (st_outs st ! j)
                    else st_outs st ! j)
             (int (st_pos st ! j))
             (outputs ! out_slot (e_info env) (mit_mot_offset (e_info env)) j)
             = Inr (st_outs st' ! j)"
    if "n_outs (e_info env) \<le> j" "j < n_outs (e_info env) + n_nit_sot (e_info env)"
       "j < length (st_outs st)"
  proof -
    from that mn have a: "n_mit_mot (e_info env) \<le> j" by simp
    from that have b: "j \<notin> set [n_mit_mot (e_info env)..<n_outs (e_info env)]" by simp
    have o2: "outs2 ! j = st_outs st ! j" using M(3) [OF a] S b by simp
    have l2: "length outs2 = length (st_outs st)" using M S by simp
    from that have c: "j \<in> set [n_outs (e_info env)..<n_outs (e_info env) + n_nit_sot (e_info env)]"
      by simp
    have "setitem (if st_i st = 0 then nit_sot_cell (e_store_steps env ! j) (outs2 ! j)
                    else outs2 ! j)
             (int (st_pos st ! j))
             (outputs' ! out_slot (e_info env) (mit_mot_offset (e_info env)) j)
             = Inr (st_outs st' ! j)"
    proof -
      from that(3) l2 have "j < length outs2" by simp
      with N c show ?thesis by blast
    qed
    then show ?thesis by (simp only: o2 eq)
  qed
  show "st_outs st' ! j = st_outs st ! j"
    if "n_outs (e_info env) + n_nit_sot (e_info env) \<le> j"
    using that M(3) [of j] S N mn by simp
qed

lemma loop_body_mit_mot:
  assumes "loop_body env st = Inr st'"
    and "inner_inputs env st = Inr ins" and "e_fn env ins = Inr outputs"
  shows "\<exists>outs1. scatter_mit_mot (e_info env) (st_pos st) outputs (st_outs st)
                   = Inr (outs1, mit_mot_offset (e_info env)) \<and>
                 (\<forall>j<n_mit_mot (e_info env). st_outs st' ! j = outs1 ! j)"
proof -
  from assms(1) obtain ins' outputs' outs1 outs2 where
    i: "inner_inputs env st = Inr ins'" and f: "e_fn env ins' = Inr outputs'" and
    m: "scatter_mit_mot (e_info env) (st_pos st) outputs' (st_outs st)
           = Inr (outs1, mit_mot_offset (e_info env))" and
    s: "fold_err (write_sot (e_info env) (st_pos st) outputs' (mit_mot_offset (e_info env)))
           [n_mit_mot (e_info env)..<n_outs (e_info env)] outs1 = Inr outs2" and
    n: "fold_err (write_nit_sot (e_info env) (e_store_steps env) (st_i st) (st_pos st) outputs'
                     (mit_mot_offset (e_info env)))
           [n_outs (e_info env)..<n_outs (e_info env) + n_nit_sot (e_info env)] outs2
           = Inr (st_outs st')"
    by (rule loop_body_Inr)
  from i f assms(2,3) have eq: "outputs' = outputs" by simp
  note S = write_sot_fold [OF s distinct_upt]
  note N = write_nit_sot_fold [OF n distinct_upt]
  have "st_outs st' ! j = outs1 ! j" if "j < n_mit_mot (e_info env)" for j
  proof -
    from that have "j \<notin> set [n_mit_mot (e_info env)..<n_outs (e_info env)]" and
      "j \<notin> set [n_outs (e_info env)..<n_outs (e_info env) + n_nit_sot (e_info env)]"
      by (simp_all add: n_outs_def)
    with S N show ?thesis by simp
  qed
  with m eq show ?thesis by blast
qed

subsection \<open>The loop\<close>

lemma loop_iter_stop: "\<not> loop_guard env st \<Longrightarrow> loop_iter env k st = Inr st"
  by (induction k) auto

lemma loop_iter_unfold:
  "loop_iter env (Suc k) st =
     (if loop_guard env st
      then (case loop_body env st of Inl e \<Rightarrow> Inl e | Inr st' \<Rightarrow> loop_iter env k st')
      else Inr st)"
proof (induction k arbitrary: st)
  case 0
  show ?case by (simp split: sum.splits)
next
  case (Suc k)
  have "loop_iter env (Suc (Suc k)) st =
          (case loop_iter env (Suc k) st of Inl e \<Rightarrow> Inl e
           | Inr st' \<Rightarrow> if loop_guard env st' then loop_body env st' else Inr st')"
    by simp
  also have "\<dots> = (if loop_guard env st
      then (case loop_body env st of Inl e \<Rightarrow> Inl e | Inr st' \<Rightarrow> loop_iter env (Suc k) st')
      else Inr st)"
    by (subst Suc.IH) (simp split: sum.splits)
  finally show ?case .
qed

lemma main_loop_iter: "main_loop env st = loop_iter env (e_n_steps env - st_i st) st"
proof (induction env st rule: main_loop.induct)
  case (1 env st)
  show ?case
  proof (cases "loop_guard env st")
    case False
    then show ?thesis by (simp add: main_loop.simps loop_iter_stop)
  next
    case True
    then have lt: "st_i st < e_n_steps env" by (simp add: loop_guard_def)
    then have k: "e_n_steps env - st_i st = Suc (e_n_steps env - Suc (st_i st))" by simp
    show ?thesis
    proof (cases "loop_body env st")
      case (Inl e)
      with True show ?thesis
        by (subst main_loop.simps, subst k, subst loop_iter_unfold) simp
    next
      case (Inr st')
      have "main_loop env st' = loop_iter env (e_n_steps env - st_i st') st'"
        using "1.IH" True Inr by simp
      with True Inr loop_body_i[OF Inr] show ?thesis
        by (subst main_loop.simps, subst k, subst loop_iter_unfold) simp
    qed
  qed
qed

lemma loop_iter_i_le: "loop_iter env k st0 = Inr st \<Longrightarrow> st_i st \<le> st_i st0 + k"
proof (induction k arbitrary: st)
  case 0
  then show ?case by simp
next
  case (Suc k)
  from Suc.prems obtain s where s: "loop_iter env k st0 = Inr s" and
    r: "(if loop_guard env s then loop_body env s else Inr s) = Inr st"
    by (auto split: sum.splits)
  from Suc.IH [OF s] r show ?case by (auto split: if_splits dest: loop_body_i)
qed

text \<open>The last of \<open>Suc k\<close> iterations that all ran.\<close>

lemma loop_iter_Suc_ran:
  assumes "loop_iter env (Suc k) st0 = Inr st'" and "st_i st' = st_i st0 + Suc k"
  obtains s where "loop_iter env k st0 = Inr s" and "st_i s = st_i st0 + k"
    and "loop_guard env s" and "loop_body env s = Inr st'"
proof -
  from assms(1) obtain s where s: "loop_iter env k st0 = Inr s" and
    r: "(if loop_guard env s then loop_body env s else Inr s) = Inr st'"
    by (auto split: sum.splits)
  note le = loop_iter_i_le [OF s]
  have g: "loop_guard env s"
  proof (rule ccontr)
    assume "\<not> loop_guard env s"
    with r have "st' = s" by simp
    with le assms(2) show False by simp
  qed
  with r have b: "loop_body env s = Inr st'" by simp
  from loop_body_i [OF b] assms(2) have i: "st_i s = st_i st0 + k" by simp
  show thesis by (rule that [OF s i g b])
qed

subsection \<open>Invariants of the loop\<close>

text \<open>
  What holds at the head of the loop in a well-formed call: every tracked output has
  a position, the position of output \<open>idx\<close> after \<open>i\<close> iterations is
  \<open>(i - mintaps[idx]) % store_steps[idx]\<close>, every tap output has a buffer of its store
  length, and so has every nit-sot output once an iteration has run; an output after
  the mit-mot block that has been written to has a store length that is not 0.
\<close>

definition loop_inv :: "'a scan_env \<Rightarrow> 'a loop_state \<Rightarrow> bool" where
  "loop_inv env st \<longleftrightarrow>
     length (st_pos st) = n_outs (e_info env) + n_nit_sot (e_info env) \<and>
     length (st_outs st) = n_outs (e_info env) + n_nit_sot (e_info env) \<and>
     length (e_store_steps env) = n_outs (e_info env) + n_nit_sot (e_info env) \<and>
     (\<forall>idx<n_outs (e_info env) + n_nit_sot (e_info env).
        st_pos st ! idx =
          nat (numpy_mod (int (st_i st) - mintaps (e_info env) ! idx)
                 (int (e_store_steps env ! idx)))) \<and>
     (\<forall>idx<n_outs (e_info env).
        map_option length (st_outs st ! idx) = Some (e_store_steps env ! idx)) \<and>
     (\<forall>idx<n_outs (e_info env) + n_nit_sot (e_info env).
        n_outs (e_info env) \<le> idx \<longrightarrow> 0 < st_i st \<longrightarrow>
        map_option length (st_outs st ! idx) = Some (e_store_steps env ! idx)) \<and>
     (\<forall>idx<n_outs (e_info env) + n_nit_sot (e_info env).
        n_mit_mot (e_info env) \<le> idx \<longrightarrow> 0 < st_i st \<longrightarrow> 0 < e_store_steps env ! idx)"

lemma prepare_inv:
  assumes "wf_call info args outs" and "prepare info fn via args outs shared = Inr (env, st0)"
  shows "loop_inv env st0"
proof -
  note p = prepare_Inr [OF assms(2)]
  note ip = init_pos_nth [where info = info and store = "store_steps_of args"]
  note c = prepare_cells [OF assms]
  have "\<forall>idx<n_outs info. map_option length (st_outs st0 ! idx) = Some (store_steps_of args ! idx)"
  proof (intro allI impI)
    fix idx assume "idx < n_outs info"
    from c(2) [OF this] show "map_option length (st_outs st0 ! idx) = Some (store_steps_of args ! idx)"
      by auto
  qed
  then show ?thesis
    using p(1,4,6,8) ip c(1) wf_lengths(1) [OF assms(1)]
    by (simp add: loop_inv_def)
qed

lemma nit_sot_cell_length: "map_option length (nit_sot_cell S cell) = Some S"
  by (simp add: nit_sot_cell_def split: option.splits)

lemma setitem_nonempty:
  assumes "setitem cell i v = Inr cell'" and "map_option length cell = Some S"
  shows "0 < S"
proof -
  from setitem_Inr [OF assms(1)] obtain buf j where
    "cell = Some buf" and "py_index (length buf) i = Inr j" by blast
  with assms(2) show ?thesis by (auto simp: py_index_def Let_def split: if_splits)
qed

lemma body_inv:
  assumes "loop_inv env st" and "loop_body env st = Inr st'"
  shows "loop_inv env st'"
proof -
  let ?N = "n_outs (e_info env) + n_nit_sot (e_info env)"
  from assms(2) obtain ins outputs where
    i: "inner_inputs env st = Inr ins" and f: "e_fn env ins = Inr outputs" and
    si: "st_i st' = Suc (st_i st)" and
    sp: "st_pos st' = map2 (\<lambda>p store. nat (numpy_mod (int p + 1) (int store))) (st_pos st)
                        (e_store_steps env)"
    by (rule loop_body_Inr)
  note c = loop_body_cells [OF assms(2) i f]
  from assms(1) have
    lp: "length (st_pos st) = ?N" and lo: "length (st_outs st) = ?N" and
    ls: "length (e_store_steps env) = ?N" and
    pos: "\<And>idx. idx < ?N \<Longrightarrow>
        st_pos st ! idx =
          nat (numpy_mod (int (st_i st) - mintaps (e_info env) ! idx)
                 (int (e_store_steps env ! idx)))" and
    tap: "\<And>idx. idx < n_outs (e_info env) \<Longrightarrow>
        map_option length (st_outs st ! idx) = Some (e_store_steps env ! idx)" and
    nit: "\<And>idx. idx < ?N \<Longrightarrow> n_outs (e_info env) \<le> idx \<Longrightarrow> 0 < st_i st \<Longrightarrow>
        map_option length (st_outs st ! idx) = Some (e_store_steps env ! idx)"
    by (simp_all add: loop_inv_def)
  have lp': "length (st_pos st') = ?N" using sp lp ls by simp
  have lo': "length (st_outs st') = ?N" using c(1) lo by simp
  have pos': "st_pos st' ! idx =
          nat (numpy_mod (int (st_i st') - mintaps (e_info env) ! idx)
                 (int (e_store_steps env ! idx)))"
    if "idx < ?N" for idx
  proof -
    have "st_pos st' ! idx =
            nat (numpy_mod (int (st_pos st ! idx) + 1) (int (e_store_steps env ! idx)))"
      using sp that lp ls by simp
    also have "\<dots> = nat (numpy_mod (int (st_i st) - mintaps (e_info env) ! idx + 1)
                        (int (e_store_steps env ! idx)))"
      unfolding pos [OF that] by (rule pos_advance)
    also have "int (st_i st) - mintaps (e_info env) ! idx + 1
                 = int (st_i st') - mintaps (e_info env) ! idx"
      using si by simp
    finally show ?thesis .
  qed
  have tap': "map_option length (st_outs st' ! idx) = Some (e_store_steps env ! idx)"
    if "idx < n_outs (e_info env)" for idx
  proof (cases "idx < n_mit_mot (e_info env)")
    case True
    with c(2) [of idx] that lo tap [OF that] show ?thesis by simp
  next
    case False
    with c(3) [of idx] that lo
    have "setitem (st_outs st ! idx) (int (st_pos st ! idx))
             (outputs ! out_slot (e_info env) (mit_mot_offset (e_info env)) idx)
             = Inr (st_outs st' ! idx)" by simp
    from setitem_length [OF this] tap [OF that] show ?thesis by simp
  qed
  have nit': "map_option length (st_outs st' ! idx) = Some (e_store_steps env ! idx)"
    if "idx < ?N" "n_outs (e_info env) \<le> idx" for idx
  proof -
    from c(4) [of idx] that lo
    have s: "setitem (if st_i st = 0 then nit_sot_cell (e_store_steps env ! idx) (st_outs st ! idx)
                    else st_outs st ! idx)
             (int (st_pos st ! idx))
             (outputs ! out_slot (e_info env) (mit_mot_offset (e_info env)) idx)
             = Inr (st_outs st' ! idx)" by simp
    show ?thesis
    proof (cases "st_i st = 0")
      case True
      with setitem_length [OF s] show ?thesis by (simp add: nit_sot_cell_length)
    next
      case False
      with setitem_length [OF s] nit [OF that] show ?thesis by simp
    qed
  qed
  have store': "0 < e_store_steps env ! idx"
    if "idx < ?N" "n_mit_mot (e_info env) \<le> idx" for idx
  proof (cases "idx < n_outs (e_info env)")
    case True
    with c(3) [of idx] that lo
    have "setitem (st_outs st ! idx) (int (st_pos st ! idx))
             (outputs ! out_slot (e_info env) (mit_mot_offset (e_info env)) idx)
             = Inr (st_outs st' ! idx)" by simp
    from setitem_nonempty [OF this tap [OF True]] show ?thesis .
  next
    case False
    with c(4) [of idx] that lo
    have s: "setitem (if st_i st = 0 then nit_sot_cell (e_store_steps env ! idx) (st_outs st ! idx)
                    else st_outs st ! idx)
             (int (st_pos st ! idx))
             (outputs ! out_slot (e_info env) (mit_mot_offset (e_info env)) idx)
             = Inr (st_outs st' ! idx)" by simp
    have "map_option length
            (if st_i st = 0 then nit_sot_cell (e_store_steps env ! idx) (st_outs st ! idx)
             else st_outs st ! idx) = Some (e_store_steps env ! idx)"
    proof (cases "st_i st = 0")
      case True
      then show ?thesis by (simp add: nit_sot_cell_length)
    next
      case nz: False
      with nit [OF that(1)] False show ?thesis by simp
    qed
    from setitem_nonempty [OF s this] show ?thesis .
  qed
  from lp' lo' ls pos' tap' nit' store' show ?thesis by (simp add: loop_inv_def)
qed

lemma iter_inv:
  assumes "loop_inv env st0" and "loop_iter env k st0 = Inr st"
  shows "loop_inv env st"
  using assms(2)
proof (induction k arbitrary: st)
  case 0
  with assms(1) show ?case by simp
next
  case (Suc k)
  from Suc.prems obtain s where s: "loop_iter env k st0 = Inr s" and
    r: "(if loop_guard env s then loop_body env s else Inr s) = Inr st"
    by (auto split: sum.splits)
  from Suc.IH [OF s] r show ?case by (auto split: if_splits intro: body_inv)
qed

lemma main_loop_inv:
  assumes "loop_inv env st0" and "main_loop env st0 = Inr st"
  shows "loop_inv env st"
  using iter_inv [OF assms(1)] assms(2) by (simp add: main_loop_iter)

text \<open>The state of a well-formed call after \<open>k\<close> iterations at most, output by output.\<close>

lemma iter_cell:
  assumes wf: "wf_call info args outs"
    and p: "prepare info fn via args outs shared = Inr (env, st0)"
    and m: "loop_iter env k st0 = Inr st"
    and idx: "idx < n_outs info + n_nit_sot info"
  shows "idx < length (st_outs st)"
    and "st_pos st ! idx =
           nat (numpy_mod (int (st_i st) - mintaps info ! idx) (int (store_steps_of args ! idx)))"
    and "0 < store_steps_of args ! idx \<Longrightarrow> st_pos st ! idx < store_steps_of args ! idx"
    and "idx < n_outs info \<or> 0 < st_i st \<Longrightarrow>
           \<exists>buf. st_outs st ! idx = Some buf \<and> length buf = store_steps_of args ! idx"
    and "n_mit_mot info \<le> idx \<Longrightarrow> 0 < st_i st \<Longrightarrow> 0 < store_steps_of args ! idx"
proof -
  note pe = prepare_Inr [OF p]
  have inv: "loop_inv env st" by (rule iter_inv [OF prepare_inv [OF wf p] m])
  from inv idx pe(1,4) show "idx < length (st_outs st)" by (simp add: loop_inv_def)
  from inv idx pe(1,4) show
    pos: "st_pos st ! idx =
      nat (numpy_mod (int (st_i st) - mintaps info ! idx) (int (store_steps_of args ! idx)))"
    by (simp add: loop_inv_def)
  show "st_pos st ! idx < store_steps_of args ! idx" if "0 < store_steps_of args ! idx"
    unfolding pos using numpy_mod_range [OF that] by (simp add: nat_less_iff)
  show "\<exists>buf. st_outs st ! idx = Some buf \<and> length buf = store_steps_of args ! idx"
    if "idx < n_outs info \<or> 0 < st_i st"
  proof -
    from inv idx pe(1,4) that
    have "map_option length (st_outs st ! idx) = Some (store_steps_of args ! idx)"
      by (cases "idx < n_outs info") (simp_all add: loop_inv_def)
    then show ?thesis by auto
  qed
  show "0 < store_steps_of args ! idx" if "n_mit_mot info \<le> idx" "0 < st_i st"
    using inv idx pe(1,4) that by (simp add: loop_inv_def)
qed

lemma final_cell:
  assumes wf: "wf_call info args outs"
    and p: "prepare info fn via args outs shared = Inr (env, st0)"
    and m: "main_loop env st0 = Inr st"
    and idx: "idx < n_outs info + n_nit_sot info"
  shows "idx < length (st_outs st)"
    and "st_pos st ! idx =
           nat (numpy_mod (int (st_i st) - mintaps info ! idx) (int (store_steps_of args ! idx)))"
    and "0 < store_steps_of args ! idx \<Longrightarrow> st_pos st ! idx < store_steps_of args ! idx"
    and "idx < n_outs info \<or> 0 < st_i st \<Longrightarrow>
           \<exists>buf. st_outs st ! idx = Some buf \<and> length buf = store_steps_of args ! idx"
    and "n_mit_mot info \<le> idx \<Longrightarrow> 0 < st_i st \<Longrightarrow> 0 < store_steps_of args ! idx"
proof -
  from m have it: "loop_iter env (e_n_steps env - st_i st0) st0 = Inr st"
    by (simp add: main_loop_iter)
  note c = iter_cell [OF wf p it idx]
  show "idx < length (st_outs st)" by (rule c(1))
  show "st_pos st ! idx =
           nat (numpy_mod (int (st_i st) - mintaps info ! idx) (int (store_steps_of args ! idx)))"
    by (rule c(2))
  show "st_pos st ! idx < store_steps_of args ! idx" if "0 < store_steps_of args ! idx"
    using that by (rule c(3))
  show "\<exists>buf. st_outs st ! idx = Some buf \<and> length buf = store_steps_of args ! idx"
    if "idx < n_outs info \<or> 0 < st_i st"
    using that by (rule c(4))
  show "0 < store_steps_of args ! idx" if "n_mit_mot info \<le> idx" "0 < st_i st"
    using that by (rule c(5))
qed

subsection \<open>The number of iterations\<close>

lemma loop_iter_i_ge: "loop_iter env k st0 = Inr st \<Longrightarrow> st_i st0 \<le> st_i st"
proof (induction k arbitrary: st)
  case 0
  then show ?case by simp
next
  case (Suc k)
  from Suc.prems obtain s where s: "loop_iter env k st0 = Inr s" and
    r: "(if loop_guard env s then loop_body env s else Inr s) = Inr st"
    by (auto split: sum.splits)
  from Suc.IH [OF s] r show ?case by (auto split: if_splits dest: loop_body_i)
qed

text \<open>The state that \<open>k\<close> guarded iterations reach is reached by as many as its counter tells.\<close>

lemma loop_iter_exact:
  "loop_iter env k st0 = Inr st \<Longrightarrow> loop_iter env (st_i st - st_i st0) st0 = Inr st"
proof (induction k arbitrary: st)
  case 0
  then show ?case by simp
next
  case (Suc k)
  from Suc.prems obtain s where s: "loop_iter env k st0 = Inr s" and
    r: "(if loop_guard env s then loop_body env s else Inr s) = Inr st"
    by (auto split: sum.splits)
  note ih = Suc.IH [OF s]
  show ?case
  proof (cases "loop_guard env s")
    case False
    with r ih show ?thesis by simp
  next
    case True
    with r have b: "loop_body env s = Inr st" by simp
    from loop_body_i [OF b] loop_iter_i_ge [OF s]
    have "st_i st - st_i st0 = Suc (st_i s - st_i st0)" by simp
    with ih True b show ?thesis by simp
  qed
qed

lemma main_loop_stops: "main_loop env st0 = Inr st \<Longrightarrow> \<not> loop_guard env st"
proof (induction env st0 rule: main_loop.induct)
  case (1 env st0)
  show ?case
  proof (cases "loop_guard env st0")
    case False
    with "1.prems" show ?thesis by (simp add: main_loop.simps)
  next
    case True
    with "1.prems" obtain st' where b: "loop_body env st0 = Inr st'" and
      m: "main_loop env st' = Inr st"
      by (subst (asm) main_loop.simps) (auto split: sum.splits)
    from "1.IH" [OF True b m] show ?thesis .
  qed
qed

lemma loop_iter_cond:
  assumes "\<not> as_while (e_info env)" and "loop_iter env k st0 = Inr st"
  shows "st_cond st = st_cond st0"
  using assms(2)
proof (induction k arbitrary: st)
  case 0
  then show ?case by simp
next
  case (Suc k)
  from Suc.prems obtain s where s: "loop_iter env k st0 = Inr s" and
    r: "(if loop_guard env s then loop_body env s else Inr s) = Inr st"
    by (auto split: sum.splits)
  note ih = Suc.IH [OF s]
  show ?case
  proof (cases "loop_guard env s")
    case False
    with r ih show ?thesis by simp
  next
    case True
    with r have b: "loop_body env s = Inr st" by simp
    from b assms(1) have "st_cond st = st_cond s"
      by (auto simp: loop_body_def Let_def split: sum.splits prod.splits)
    with ih show ?thesis by simp
  qed
qed

text \<open>
  The loop of a call ends after \<open>n_steps\<close> iterations at most; when the op is not in
  while mode it ends after exactly \<open>n_steps\<close>, and when it ends earlier the condition
  has ended it.
\<close>

lemma main_loop_count:
  assumes "main_loop env st0 = Inr st" and "st_i st0 = 0" and "st_cond st0"
  shows "loop_iter env (st_i st) st0 = Inr st" and "st_i st \<le> e_n_steps env"
    and "\<not> as_while (e_info env) \<Longrightarrow> st_i st = e_n_steps env"
    and "st_i st < e_n_steps env \<Longrightarrow> as_while (e_info env) \<and> \<not> st_cond st"
proof -
  from assms(1,2) have it: "loop_iter env (e_n_steps env) st0 = Inr st"
    by (simp add: main_loop_iter)
  from loop_iter_exact [OF it] assms(2) show "loop_iter env (st_i st) st0 = Inr st" by simp
  from loop_iter_i_le [OF it] assms(2) show le: "st_i st \<le> e_n_steps env" by simp
  note ng = main_loop_stops [OF assms(1)]
  show "st_i st = e_n_steps env" if "\<not> as_while (e_info env)"
  proof -
    from loop_iter_cond [OF that it] assms(3) have "st_cond st" by simp
    with ng le show ?thesis by (simp add: loop_guard_def)
  qed
  show "as_while (e_info env) \<and> \<not> st_cond st" if lt: "st_i st < e_n_steps env"
  proof -
    from ng lt have nc: "\<not> st_cond st" by (simp add: loop_guard_def)
    have "as_while (e_info env)"
    proof (rule ccontr)
      assume "\<not> as_while (e_info env)"
      from loop_iter_cond [OF this it] assms(3) nc show False by simp
    qed
    with nc show ?thesis by simp
  qed
qed

subsection \<open>The slices of a mit-mot output\<close>

text \<open>
  The entry that \<^verbatim>\<open>a[i]\<close> denotes in an array of \<open>len\<close> entries, for \<open>i\<close> in \<open>[-len, len)\<close>:
  the index itself when it is not negative, and \<open>len + i\<close> when it is.
\<close>

definition entry_index :: "nat \<Rightarrow> int \<Rightarrow> nat" where
  "entry_index len i = (if i < 0 then nat (int len + i) else nat i)"

text \<open>
  A buffer after the output slots from \<open>off\<close> on have been assigned, in order, to its
  entries \<^verbatim>\<open>k + p\<close> for the slices \<open>k\<close> of the list.
\<close>

primrec slices_written :: "nat \<Rightarrow> 'a list \<Rightarrow> nat \<Rightarrow> int list \<Rightarrow> 'a list \<Rightarrow> 'a list" where
  "slices_written p outputs off [] buf = buf"
| "slices_written p outputs off (k # ks) buf =
     slices_written p outputs (Suc off) ks
       (buf[entry_index (length buf) (k + int p) := outputs ! off])"

text \<open>The output slot of the first slice of mit-mot output \<open>j\<close>.\<close>

definition mit_mot_slot :: "scan_info \<Rightarrow> nat \<Rightarrow> nat" where
  "mit_mot_slot info j =
     sum_list (map (\<lambda>j'. length (mit_mot_out_slices info ! j')) [0..<j])"

lemma entry_index_less:
  "- int len \<le> i \<Longrightarrow> i < int len \<Longrightarrow> entry_index len i < len"
  by (auto simp: entry_index_def)

lemma setitem_entry:
  assumes "setitem cell i v = Inr cell'"
  shows "\<exists>buf. cell = Some buf \<and> - int (length buf) \<le> i \<and> i < int (length buf) \<and>
           cell' = Some (buf[entry_index (length buf) i := v])"
proof -
  from setitem_Inr [OF assms] obtain buf j where
    c: "cell = Some buf" and j: "py_index (length buf) i = Inr j" and
    c': "cell' = Some (buf[j := v])" by blast
  from j have "- int (length buf) \<le> i \<and> i < int (length buf) \<and> j = entry_index (length buf) i"
    by (auto simp: py_index_def entry_index_def Let_def split: if_splits)
  with c c' show ?thesis by simp
qed

lemma length_slices_written: "length (slices_written p outputs off ks buf) = length buf"
  by (induction ks arbitrary: off buf) simp_all

lemma slices_written_frame:
  "\<forall>k\<in>set ks. entry_index (length buf) (k + int p) \<noteq> x \<Longrightarrow>
     slices_written p outputs off ks buf ! x = buf ! x"
  by (induction ks arbitrary: off buf) simp_all

text \<open>A slice whose entry no later slice of the list is assigned to holds its output slot.\<close>

lemma slices_written_nth:
  assumes "t < length ks"
    and "\<forall>t'. t < t' \<and> t' < length ks \<longrightarrow>
           entry_index (length buf) (ks ! t' + int p) \<noteq> entry_index (length buf) (ks ! t + int p)"
    and "entry_index (length buf) (ks ! t + int p) < length buf"
  shows "slices_written p outputs off ks buf ! entry_index (length buf) (ks ! t + int p)
           = outputs ! (off + t)"
  using assms
proof (induction ks arbitrary: off buf t)
  case Nil
  then show ?case by simp
next
  case (Cons k ks)
  let ?buf1 = "buf[entry_index (length buf) (k + int p) := outputs ! off]"
  have l1: "length ?buf1 = length buf" by simp
  show ?case
  proof (cases t)
    case 0
    have "\<forall>k'\<in>set ks. entry_index (length ?buf1) (k' + int p)
                          \<noteq> entry_index (length buf) (k + int p)"
    proof
      fix k' assume "k' \<in> set ks"
      then obtain t' where t': "t' < length ks" "ks ! t' = k'" by (auto simp: in_set_conv_nth)
      from Cons.prems(2) [rule_format, of "Suc t'"] 0 t'
      show "entry_index (length ?buf1) (k' + int p) \<noteq> entry_index (length buf) (k + int p)"
        by simp
    qed
    from slices_written_frame [OF this] 0 Cons.prems(3) show ?thesis by simp
  next
    case (Suc t')
    with Cons.prems(1) have a: "t' < length ks" by simp
    have b: "\<forall>u. t' < u \<and> u < length ks \<longrightarrow>
           entry_index (length ?buf1) (ks ! u + int p) \<noteq> entry_index (length ?buf1) (ks ! t' + int p)"
    proof (intro allI impI)
      fix u assume "t' < u \<and> u < length ks"
      with Cons.prems(2) [rule_format, of "Suc u"] Suc
      show "entry_index (length ?buf1) (ks ! u + int p) \<noteq> entry_index (length ?buf1) (ks ! t' + int p)"
        by simp
    qed
    have c: "entry_index (length ?buf1) (ks ! t' + int p) < length ?buf1"
      using Cons.prems(3) Suc by simp
    from Cons.IH [OF a b c, of "Suc off"] Suc show ?thesis by simp
  qed
qed

lemma write_slices_content:
  assumes "fold_err (write_mit_mot_slice pos outputs j) ks s = Inr s'"
    and "j < length (fst s)" and "fst s ! j = Some buf"
  shows "fst s' ! j = Some (slices_written (pos ! j) outputs (snd s) ks buf) \<and>
         (\<forall>k\<in>set ks. - int (length buf) \<le> k + int (pos ! j) \<and> k + int (pos ! j) < int (length buf))"
  using assms
proof (induction ks arbitrary: s buf)
  case Nil
  then show ?case by simp
next
  case (Cons k ks)
  from Cons.prems(1) obtain t where
    t: "write_mit_mot_slice pos outputs j k s = Inr t" and
    r: "fold_err (write_mit_mot_slice pos outputs j) ks t = Inr s'"
    by (auto split: sum.splits)
  from t obtain cell where
    c: "setitem (fst s ! j) (k + int (pos ! j)) (outputs ! snd s) = Inr cell" and
    t': "t = ((fst s)[j := cell], Suc (snd s))"
    by (auto simp: write_mit_mot_slice_def split: sum.splits)
  let ?buf1 = "buf[entry_index (length buf) (k + int (pos ! j)) := outputs ! snd s]"
  from setitem_entry [OF c] Cons.prems(3) have
    rng: "- int (length buf) \<le> k + int (pos ! j)" "k + int (pos ! j) < int (length buf)" and
    cell: "cell = Some ?buf1" by auto
  have a: "j < length (fst t)" using t' Cons.prems(2) by simp
  have b: "fst t ! j = Some ?buf1" using t' cell Cons.prems(2) by simp
  from Cons.IH [OF r a b] t' rng show ?case by simp
qed

lemma mit_mot_content:
  assumes "fold_err (\<lambda>j. fold_err (write_mit_mot_slice pos outputs j) (slices ! j)) js s = Inr s'"
    and "distinct js" and "x < length js"
    and "js ! x < length (fst s)" and "fst s ! (js ! x) = Some buf"
  shows "fst s' ! (js ! x) =
           Some (slices_written (pos ! (js ! x)) outputs
                   (snd s + sum_list (map (\<lambda>j. length (slices ! j)) (take x js)))
                   (slices ! (js ! x)) buf) \<and>
         (\<forall>k\<in>set (slices ! (js ! x)).
            - int (length buf) \<le> k + int (pos ! (js ! x)) \<and>
            k + int (pos ! (js ! x)) < int (length buf))"
  using assms
proof (induction js arbitrary: s x)
  case Nil
  then show ?case by simp
next
  case (Cons j js)
  from Cons.prems(1) obtain t where
    t1: "fold_err (write_mit_mot_slice pos outputs j) (slices ! j) s = Inr t" and
    r: "fold_err (\<lambda>j. fold_err (write_mit_mot_slice pos outputs j) (slices ! j)) js t = Inr s'"
    by (auto split: sum.splits)
  note w = write_slices_fold [OF t1]
  note f = mit_mot_fold [OF r]
  from Cons.prems(2) have d: "distinct js" and nj: "j \<notin> set js" by simp_all
  show ?case
  proof (cases x)
    case 0
    from Cons.prems(4,5) 0 have a: "j < length (fst s)" and b: "fst s ! j = Some buf" by simp_all
    from f nj have "fst s' ! j = fst t ! j" by simp
    with write_slices_content [OF t1 a b] 0 show ?thesis by simp
  next
    case (Suc x')
    with Cons.prems(3) have x': "x' < length js" by simp
    then have mem: "js ! x' \<in> set js" by simp
    with nj have ne: "js ! x' \<noteq> j" by auto
    from Cons.prems(4) Suc w have a: "js ! x' < length (fst t)" by simp
    from Cons.prems(5) Suc w ne have b: "fst t ! (js ! x') = Some buf" by simp
    from Cons.IH [OF r d x' a b] w Suc show ?thesis by (simp add: add.assoc)
  qed
qed

lemma scatter_mit_mot_content:
  assumes "scatter_mit_mot info pos outputs outs = Inr (outs1, off)"
    and "j < n_mit_mot info" and "j < length outs" and "outs ! j = Some buf"
  shows "outs1 ! j =
           Some (slices_written (pos ! j) outputs (mit_mot_slot info j)
                   (mit_mot_out_slices info ! j) buf)"
    and "\<forall>k\<in>set (mit_mot_out_slices info ! j).
            - int (length buf) \<le> k + int (pos ! j) \<and> k + int (pos ! j) < int (length buf)"
proof -
  have t: "take j [0..<n_mit_mot info] = [0..<j]" using assms(2) by (simp add: take_upt)
  from mit_mot_content [OF assms(1) [unfolded scatter_mit_mot_def] distinct_upt,
      of j buf] assms(2,3,4)
  have "outs1 ! j =
           Some (slices_written (pos ! j) outputs (mit_mot_slot info j)
                   (mit_mot_out_slices info ! j) buf) \<and>
        (\<forall>k\<in>set (mit_mot_out_slices info ! j).
            - int (length buf) \<le> k + int (pos ! j) \<and> k + int (pos ! j) < int (length buf))"
    by (simp add: t mit_mot_slot_def)
  then show "outs1 ! j =
           Some (slices_written (pos ! j) outputs (mit_mot_slot info j)
                   (mit_mot_out_slices info ! j) buf)"
    and "\<forall>k\<in>set (mit_mot_out_slices info ! j).
            - int (length buf) \<le> k + int (pos ! j) \<and> k + int (pos ! j) < int (length buf)"
    by simp_all
qed

lemma loop_body_mit_mot_written:
  assumes "loop_body env st = Inr st'"
    and "inner_inputs env st = Inr ins" and "e_fn env ins = Inr outputs"
    and "j < n_mit_mot (e_info env)" and "j < length (st_outs st)"
    and "st_outs st ! j = Some buf"
  shows "st_outs st' ! j =
           Some (slices_written (st_pos st ! j) outputs (mit_mot_slot (e_info env) j)
                   (mit_mot_out_slices (e_info env) ! j) buf)"
    and "\<forall>k\<in>set (mit_mot_out_slices (e_info env) ! j).
            - int (length buf) \<le> k + int (st_pos st ! j) \<and>
            k + int (st_pos st ! j) < int (length buf)"
proof -
  from loop_body_mit_mot [OF assms(1-3)] obtain outs1 where
    m: "scatter_mit_mot (e_info env) (st_pos st) outputs (st_outs st)
          = Inr (outs1, mit_mot_offset (e_info env))" and
    o: "\<forall>j<n_mit_mot (e_info env). st_outs st' ! j = outs1 ! j" by blast
  note c = scatter_mit_mot_content [OF m assms(4,5,6)]
  show "st_outs st' ! j =
           Some (slices_written (st_pos st ! j) outputs (mit_mot_slot (e_info env) j)
                   (mit_mot_out_slices (e_info env) ! j) buf)"
    using o assms(4) c(1) by simp
  show "\<forall>k\<in>set (mit_mot_out_slices (e_info env) ! j).
            - int (length buf) \<le> k + int (st_pos st ! j) \<and>
            k + int (st_pos st ! j) < int (length buf)"
    by (rule c(2))
qed

text \<open>
  What an iteration leaves in the buffer of mit-mot output \<open>j\<close>: every slice index is
  inside \<open>[-len, len)\<close>, a slice that no later slice of the output overwrites holds its
  output slot at its entry, and the entries of no slice are as before.
\<close>

lemma loop_body_mit_mot_cell:
  assumes "loop_body env st = Inr st'"
    and "inner_inputs env st = Inr ins" and "e_fn env ins = Inr outputs"
    and "j < n_mit_mot (e_info env)" and "j < length (st_outs st)"
    and "st_outs st ! j = Some buf"
  shows "\<exists>buf'. st_outs st' ! j = Some buf' \<and> length buf' = length buf \<and>
           (\<forall>k\<in>set (mit_mot_out_slices (e_info env) ! j).
              - int (length buf) \<le> k + int (st_pos st ! j) \<and>
              k + int (st_pos st ! j) < int (length buf)) \<and>
           (\<forall>t<length (mit_mot_out_slices (e_info env) ! j).
              (\<forall>t'. t < t' \<and> t' < length (mit_mot_out_slices (e_info env) ! j) \<longrightarrow>
                 entry_index (length buf)
                   (mit_mot_out_slices (e_info env) ! j ! t' + int (st_pos st ! j))
                 \<noteq> entry_index (length buf)
                     (mit_mot_out_slices (e_info env) ! j ! t + int (st_pos st ! j))) \<longrightarrow>
              buf' ! entry_index (length buf)
                       (mit_mot_out_slices (e_info env) ! j ! t + int (st_pos st ! j))
                = outputs ! (mit_mot_slot (e_info env) j + t)) \<and>
           (\<forall>x. (\<forall>k\<in>set (mit_mot_out_slices (e_info env) ! j).
                    entry_index (length buf) (k + int (st_pos st ! j)) \<noteq> x) \<longrightarrow>
                buf' ! x = buf ! x)"
proof -
  let ?ks = "mit_mot_out_slices (e_info env) ! j" and ?p = "st_pos st ! j"
  let ?buf' = "slices_written ?p outputs (mit_mot_slot (e_info env) j) ?ks buf"
  note c = loop_body_mit_mot_written [OF assms]
  have cell: "st_outs st' ! j = Some ?buf'" by (rule c(1))
  have len: "length ?buf' = length buf" by (rule length_slices_written)
  have val: "?buf' ! entry_index (length buf) (?ks ! t + int ?p)
               = outputs ! (mit_mot_slot (e_info env) j + t)"
    if "t < length ?ks"
      and "\<forall>t'. t < t' \<and> t' < length ?ks \<longrightarrow>
             entry_index (length buf) (?ks ! t' + int ?p)
               \<noteq> entry_index (length buf) (?ks ! t + int ?p)"
    for t
  proof -
    from that(1) have "?ks ! t \<in> set ?ks" by simp
    with c(2) have "entry_index (length buf) (?ks ! t + int ?p) < length buf"
      by (intro entry_index_less) auto
    from slices_written_nth [OF that(1) that(2) this] show ?thesis .
  qed
  have frame: "?buf' ! x = buf ! x"
    if "\<forall>k\<in>set ?ks. entry_index (length buf) (k + int ?p) \<noteq> x" for x
    using that by (rule slices_written_frame)
  from cell len c(2) val frame show ?thesis by blast
qed

text \<open>The shared outputs take the last output slots before the condition.\<close>

lemma loop_body_shared:
  assumes "loop_body env st = Inr st'"
    and "inner_inputs env st = Inr ins" and "e_fn env ins = Inr outputs"
  shows "st_shared st' =
           map (\<lambda>k. outputs ! (mit_mot_offset (e_info env) + n_mit_sot (e_info env)
                                  + n_sit_sot (e_info env) + n_nit_sot (e_info env) + k))
             [0..<n_shared_outs (e_info env)]"
proof -
  let ?N = "n_outs (e_info env) + n_nit_sot (e_info env)"
  from assms(1) obtain ins' outputs' where
    "inner_inputs env st = Inr ins'" and "e_fn env ins' = Inr outputs'" and
    sh: "st_shared st' =
           map (\<lambda>j. outputs' ! out_slot (e_info env) (mit_mot_offset (e_info env)) j)
             [?N..<?N + n_shared_outs (e_info env)]"
    by (auto simp: loop_body_def Let_def split: sum.splits prod.splits
        dest: scatter_mit_mot_Inr(1))
  with assms(2,3) have eq: "outputs' = outputs" by simp
  have "[?N..<?N + n_shared_outs (e_info env)] = map (\<lambda>k. k + ?N) [0..<n_shared_outs (e_info env)]"
    by (simp add: map_add_upt add.commute)
  then have "st_shared st' =
               map (\<lambda>k. outputs ! out_slot (e_info env) (mit_mot_offset (e_info env)) (k + ?N))
                 [0..<n_shared_outs (e_info env)]"
    using sh eq by (simp add: comp_def)
  moreover have "out_slot (e_info env) (mit_mot_offset (e_info env)) (k + ?N) =
                   mit_mot_offset (e_info env) + n_mit_sot (e_info env)
                     + n_sit_sot (e_info env) + n_nit_sot (e_info env) + k" for k
    by (simp add: out_slot_def n_outs_def)
  ultimately show ?thesis by simp
qed

subsection \<open>Step 6 and the whole call\<close>

lemma reorder_fold:
  assumes "fold_err (reorder_step env st) xs outs = Inr outs'" and "distinct xs"
  shows "length outs' = length outs \<and>
         (\<forall>i\<in>set xs. i < length outs \<longrightarrow> reorder_cell env st i (outs ! i) = Inr (outs' ! i)) \<and>
         (\<forall>i. i \<notin> set xs \<longrightarrow> outs' ! i = outs ! i)"
  using assms
proof (induction xs arbitrary: outs)
  case Nil
  then show ?case by simp
next
  case (Cons x xs)
  from Cons.prems(1) obtain s' where
    s: "reorder_step env st x outs = Inr s'" and
    r': "fold_err (reorder_step env st) xs s' = Inr outs'"
    by (auto split: sum.splits)
  from s obtain cell where
    c: "reorder_cell env st x (outs ! x) = Inr cell" and s': "s' = outs[x := cell]"
    by (auto simp: reorder_step_def split: sum.splits)
  from r' s' have r: "fold_err (reorder_step env st) xs (outs[x := cell]) = Inr outs'"
    by simp
  from Cons.prems(2) have d: "distinct xs" and nx: "x \<notin> set xs" by simp_all
  note ih = Cons.IH [OF r d]
  have l: "length outs' = length outs" using ih by simp
  have x: "x < length outs \<longrightarrow> reorder_cell env st x (outs ! x) = Inr (outs' ! x)"
    using ih nx c by simp
  have o: "\<forall>i\<in>set xs. i < length outs \<longrightarrow> reorder_cell env st i (outs ! i) = Inr (outs' ! i)"
  proof
    fix i assume i: "i \<in> set xs"
    with nx have "i \<noteq> x" by auto
    then show "i < length outs \<longrightarrow> reorder_cell env st i (outs ! i) = Inr (outs' ! i)"
      using ih i by auto
  qed
  have u: "\<forall>i. i \<notin> set (x # xs) \<longrightarrow> outs' ! i = outs ! i"
    using ih by auto
  from l x o u show ?case by simp
qed

lemma reorder_Inr:
  assumes "reorder env st = Inr outs'"
  shows "length outs' = length (st_outs st)"
    and "n_mit_mot (e_info env) \<le> idx \<Longrightarrow> idx < n_outs (e_info env) + n_nit_sot (e_info env) \<Longrightarrow>
         idx < length (st_outs st) \<Longrightarrow>
         reorder_cell env st idx (st_outs st ! idx) = Inr (outs' ! idx)"
    and "idx < n_mit_mot (e_info env) \<Longrightarrow> outs' ! idx = st_outs st ! idx"
  using reorder_fold [OF assms [unfolded reorder_def]] by auto




lemma zeroed_cell:
  assumes "reorder env st = Inr outs'"
    and "n_mit_mot (e_info env) \<le> idx"
    and "idx < n_outs (e_info env) + n_nit_sot (e_info env)"
    and "idx < length (st_outs st)"
    and "st_outs st ! idx = Some buf"
    and "int (e_store_steps env ! idx) > int (st_i st) - mintaps (e_info env) ! idx"
    and "mintaps (e_info env) ! idx \<le> int (st_i st)"
  shows "\<exists>res. outs' ! idx = Some res \<and>
           length res = (if st_i st < e_n_steps env
                         then length buf - (e_n_steps env - st_i st) else length buf) \<and>
           (\<forall>k<length res. res ! k =
              (if int k < int (st_i st) - mintaps (e_info env) ! idx then buf ! k else 0))"
proof -
  let ?a = "int (st_i st) - mintaps (e_info env) ! idx"
  let ?zt = "zero_tail ?a buf"
  let ?res = "if st_i st < e_n_steps env
              then take (length buf - (e_n_steps env - st_i st)) ?zt else ?zt"
  have a: "0 \<le> ?a" using assms(7) by simp
  have "reorder_cell env st idx (st_outs st ! idx) = Inr (outs' ! idx)"
    by (rule reorder_Inr(2) [OF assms(1-4)])
  moreover have "st_i st < e_n_steps env \<Longrightarrow>
      py_take (- (int (e_n_steps env) - int (st_i st))) ?zt
        = take (length buf - (e_n_steps env - st_i st)) ?zt"
    using py_take_neg [of "e_n_steps env - st_i st" ?zt]
    by (simp add: length_zero_tail of_nat_diff)
  ultimately have cell: "outs' ! idx = Some ?res"
    using assms(5,6) by (simp add: reorder_cell_def Let_def split: if_splits)
  have len: "length ?res = (if st_i st < e_n_steps env
                         then length buf - (e_n_steps env - st_i st) else length buf)"
    by (simp add: length_zero_tail)
  have val: "\<forall>k<length ?res. ?res ! k = (if int k < ?a then buf ! k else 0)"
  proof (intro allI impI)
    fix k assume k: "k < length ?res"
    then have kb: "k < length buf" by (simp add: length_zero_tail split: if_splits)
    have "?res ! k = ?zt ! k" using k by (simp split: if_splits)
    then show "?res ! k = (if int k < ?a then buf ! k else 0)"
      using zero_tail_nth [OF a kb] by simp
  qed
  from cell len val show ?thesis by blast
qed

lemma execute_Inr:
  assumes "execute info fn via args outs shared = Inr (outs', shared')"
  obtains env st0 st where "prepare info fn via args outs shared = Inr (env, st0)"
    and "main_loop env st0 = Inr st" and "reorder env st = Inr outs'" and "shared' = st_shared st"
  using assms by (auto simp: execute_def split: sum.splits prod.splits)

subsection \<open>The values written by the loop\<close>

text \<open>
  The output slots that the inner function returns in iteration \<open>k\<close> of the loop
  started in \<open>st0\<close>, if the loop gets that far, and among them the value of a
  mit-sot, sit-sot or nit-sot output \<open>j\<close>: the slots of the mit-mot slices come first,
  then one slot for each output after the mit-mot block.
\<close>

definition step_outputs :: "'a::zero scan_env \<Rightarrow> 'a loop_state \<Rightarrow> nat \<Rightarrow> 'a list option" where
  "step_outputs env st0 k =
     (case loop_iter env k st0 of
        Inl e \<Rightarrow> None
      | Inr st \<Rightarrow>
          if st_i st = st_i st0 + k \<and> loop_guard env st
          then (case inner_inputs env st of
                  Inl e \<Rightarrow> None
                | Inr ins \<Rightarrow> (case e_fn env ins of Inl e \<Rightarrow> None | Inr outputs \<Rightarrow> Some outputs))
          else None)"

definition written :: "'a::zero scan_env \<Rightarrow> 'a loop_state \<Rightarrow> nat \<Rightarrow> nat \<Rightarrow> 'a option" where
  "written env st0 k j =
     map_option
       (\<lambda>outputs. outputs ! (mit_mot_offset (e_info env) + (j - n_mit_mot (e_info env))))
       (step_outputs env st0 k)"

lemma out_slot_after:
  "n_mit_mot info \<le> j \<Longrightarrow> out_slot info off j = off + (j - n_mit_mot info)"
  by (simp add: out_slot_def)

lemma written_at:
  assumes "loop_iter env k st0 = Inr s" and "st_i s = st_i st0 + k" and "loop_guard env s"
    and "inner_inputs env s = Inr ins" and "e_fn env ins = Inr outputs"
  shows "written env st0 k j =
           Some (outputs ! (mit_mot_offset (e_info env) + (j - n_mit_mot (e_info env))))"
  using assms by (simp add: written_def step_outputs_def)

text \<open>
  The value of output \<open>j\<close> for the logical step \<open>t\<close>: a seeded entry of the initial state
  for a negative \<open>t\<close>, the value written in iteration \<open>t\<close> otherwise.
\<close>

definition ring_value ::
  "'a::zero scan_env \<Rightarrow> 'a loop_state \<Rightarrow> nat \<Rightarrow> int \<Rightarrow> 'a option" where
  "ring_value env st0 j t =
     (if t < 0
      then Some (arg_init (e_args env) ! j ! nat (t - mintaps (e_info env) ! j))
      else written env st0 (nat t) j)"

text \<open>
  What an iteration writes for an output after the mit-mot block: one entry, at the
  position of the output.
\<close>

lemma loop_body_sot_cell:
  assumes "loop_body env st = Inr st'"
    and "inner_inputs env st = Inr ins" and "e_fn env ins = Inr outputs"
    and "n_mit_mot (e_info env) \<le> j" and "j < n_outs (e_info env) + n_nit_sot (e_info env)"
    and "j < length (st_outs st)"
  shows "\<exists>buf. (if n_outs (e_info env) \<le> j \<and> st_i st = 0
                 then nit_sot_cell (e_store_steps env ! j) (st_outs st ! j)
                 else st_outs st ! j) = Some buf \<and>
               st_pos st ! j < length buf \<and>
               st_outs st' ! j =
                 Some (buf[st_pos st ! j :=
                         outputs ! (mit_mot_offset (e_info env) + (j - n_mit_mot (e_info env)))])"
proof -
  let ?cell = "if n_outs (e_info env) \<le> j \<and> st_i st = 0
               then nit_sot_cell (e_store_steps env ! j) (st_outs st ! j) else st_outs st ! j"
  let ?v = "outputs ! (mit_mot_offset (e_info env) + (j - n_mit_mot (e_info env)))"
  note c = loop_body_cells [OF assms(1-3)]
  have "setitem ?cell (int (st_pos st ! j)) ?v = Inr (st_outs st' ! j)"
  proof (cases "j < n_outs (e_info env)")
    case True
    with c(3) [OF assms(4) True assms(6)] assms(4) show ?thesis
      by (simp add: out_slot_after)
  next
    case False
    then have ge: "n_outs (e_info env) \<le> j" by simp
    from c(4) [OF ge assms(5,6)] assms(4) ge show ?thesis
      by (simp add: out_slot_after)
  qed
  from setitem_Inr [OF this] obtain buf x where
    b: "?cell = Some buf" and x: "py_index (length buf) (int (st_pos st ! j)) = Inr x" and
    c': "st_outs st' ! j = Some (buf[x := ?v])" by blast
  from x have "x = st_pos st ! j \<and> st_pos st ! j < length buf"
    by (auto simp: py_index_def Let_def split: if_splits)
  with b c' show ?thesis by auto
qed

text \<open>
  The ring buffer of an output after the mit-mot block whose store length covers its
  taps: after \<open>k\<close> iterations the entry \<open>(t - min_tap) mod store_steps\<close> holds the
  value of the logical step \<open>t\<close>, for the last \<open>store_steps\<close> steps before \<open>k\<close>.
\<close>

lemma ring_inv:
  assumes wf: "wf_call info args outs"
    and p: "prepare info fn via args outs shared = Inr (env, st0)"
    and j: "n_mit_mot info \<le> j" "j < n_outs info + n_nit_sot info"
    and S: "- (mintaps info ! j) \<le> int (store_steps_of args ! j)"
    and it: "loop_iter env k st0 = Inr st" and i: "st_i st = k"
    and ex: "j < n_outs info \<or> 0 < k"
  shows "\<exists>buf. st_outs st ! j = Some buf \<and> length buf = store_steps_of args ! j \<and>
           (\<forall>t. mintaps info ! j \<le> t \<longrightarrow> int k - int (store_steps_of args ! j) \<le> t \<longrightarrow> t < int k \<longrightarrow>
              ring_value env st0 j t =
                Some (buf ! nat ((t - mintaps info ! j) mod int (store_steps_of args ! j))))"
  using it i ex
proof (induction k arbitrary: st)
  case 0
  let ?S = "store_steps_of args ! j" and ?m = "mintaps info ! j"
  from 0 have st: "st = st0" and jo: "j < n_outs info" by simp_all
  note pe = prepare_Inr [OF p]
  from prepare_cells(2) [OF wf p jo] obtain buf where
    b: "st_outs st0 ! j = Some buf" "length buf = ?S" and
    seed: "\<forall>k<slice_bound ?S (- ?m). buf ! k = arg_init args ! j ! k"
    by blast
  have "ring_value env st0 j t = Some (buf ! nat ((t - ?m) mod int ?S))"
    if t: "?m \<le> t" "t < 0" for t
  proof -
    from t S have r: "0 \<le> t - ?m" "t - ?m < int ?S" "t - ?m < - ?m" by simp_all
    then have md: "(t - ?m) mod int ?S = t - ?m" by simp
    from r t have "nat (t - ?m) < slice_bound ?S (- ?m)"
      by (auto simp: slice_bound_def)
    with seed have "buf ! nat (t - ?m) = arg_init args ! j ! nat (t - ?m)" by simp
    with t md pe(1,3) show ?thesis by (simp add: ring_value_def)
  qed
  with b st show ?case by auto
next
  case (Suc k)
  let ?S = "store_steps_of args ! j" and ?m = "mintaps info ! j"
  note pe = prepare_Inr [OF p]
  from Suc.prems pe(6) have "st_i st = st_i st0 + Suc k" by simp
  with Suc.prems(1) obtain s where
    s: "loop_iter env k st0 = Inr s" and si: "st_i s = st_i st0 + k" and
    g: "loop_guard env s" and b: "loop_body env s = Inr st"
    by (rule loop_iter_Suc_ran)
  from si pe(6) have sk: "st_i s = k" by simp
  note ic = iter_cell [OF wf p s j(2)]
  from b obtain ins outputs where
    ii: "inner_inputs env s = Inr ins" and f: "e_fn env ins = Inr outputs"
    by (rule loop_body_Inr)
  let ?v = "outputs ! (mit_mot_offset (e_info env) + (j - n_mit_mot (e_info env)))"
  from loop_body_sot_cell [OF b ii f, of j] j ic(1) pe(1) sk obtain buf where
    c0: "(if n_outs info \<le> j \<and> k = 0
          then nit_sot_cell (e_store_steps env ! j) (st_outs s ! j) else st_outs s ! j)
           = Some buf" and
    pl: "st_pos s ! j < length buf" and
    cell: "st_outs st ! j = Some (buf[st_pos s ! j := ?v])"
    by auto
  have old: "length buf = ?S \<and>
             (\<forall>t. ?m \<le> t \<longrightarrow> int k - int ?S \<le> t \<longrightarrow> t < int k \<longrightarrow>
                ring_value env st0 j t = Some (buf ! nat ((t - ?m) mod int ?S)))"
  proof (cases "j < n_outs info \<or> 0 < k")
    case True
    from Suc.IH [OF s sk True] c0 True show ?thesis by auto
  next
    case False
    then have jn: "n_outs info \<le> j" and k0: "k = 0" by simp_all
    from c0 jn k0 have "map_option length (Some buf) = Some (e_store_steps env ! j)"
      using nit_sot_cell_length [of "e_store_steps env ! j" "st_outs s ! j"] by simp
    then have l: "length buf = ?S" using pe(4) by simp
    from wf_lengths(5) [OF wf jn j(2)] have "?m = 0" .
    with l k0 show ?thesis by simp
  qed
  then have lb: "length buf = ?S" and
    ih: "\<And>t. ?m \<le> t \<Longrightarrow> int k - int ?S \<le> t \<Longrightarrow> t < int k \<Longrightarrow>
              ring_value env st0 j t = Some (buf ! nat ((t - ?m) mod int ?S))"
    by simp_all
  from pl lb have Spos: "0 < ?S" by simp
  from ic(2) sk numpy_mod_pos [OF Spos] have
    pos: "st_pos s ! j = nat ((int k - ?m) mod int ?S)" by simp
  have w: "written env st0 k j = Some ?v" by (rule written_at [OF s si g ii f])
  have "ring_value env st0 j t = Some (buf[st_pos s ! j := ?v] ! nat ((t - ?m) mod int ?S))"
    if t: "?m \<le> t" "int (Suc k) - int ?S \<le> t" "t < int (Suc k)" for t
  proof (cases "t = int k")
    case True
    then have "ring_value env st0 j t = Some ?v" using w by (simp add: ring_value_def)
    moreover have "nat ((t - ?m) mod int ?S) = st_pos s ! j" using True pos by simp
    ultimately show ?thesis using pl by simp
  next
    case False
    with t have lt: "t < int k" and ge: "int k - int ?S \<le> t" by simp_all
    from t lt have d: "0 < int k - t" "int k - t < int ?S" by simp_all
    from mod_shift_neq [OF d, of "t - ?m"]
    have "(int k - ?m) mod int ?S \<noteq> (t - ?m) mod int ?S" by (simp add: algebra_simps)
    moreover have "0 \<le> (t - ?m) mod int ?S" "0 \<le> (int k - ?m) mod int ?S"
      using Spos by simp_all
    ultimately have "nat ((t - ?m) mod int ?S) \<noteq> st_pos s ! j"
      unfolding pos by (simp add: nat_eq_iff)
    then have "buf[st_pos s ! j := ?v] ! nat ((t - ?m) mod int ?S)
                 = buf ! nat ((t - ?m) mod int ?S)" by simp
    with ih [OF t(1) ge lt] show ?thesis by simp
  qed
  with cell lb show ?case by auto
qed

section \<open>Example runs\<close>

text \<open>
  The entries of the examples are integers, for buffers of dtype \<^verbatim>\<open>int64\<close>. The
  \<^verbatim>\<open>float64\<close> nearest to an integer \<open>x\<close> keeps the 53 leading bits of \<open>\<bar>x\<bar>\<close>, rounded to
  the nearest value and to the even one in a tie; it is an integer again, and the
  conversion back to \<^verbatim>\<open>int64\<close> returns it (as long as it is below \<open>2 ^ 63\<close>).
\<close>

function float64_shift :: "int \<Rightarrow> nat" where
  "float64_shift a = (if a < 2 ^ 53 then 0 else Suc (float64_shift (a div 2)))"
  by pat_completeness auto
termination
  by (relation "measure nat") auto

declare float64_shift.simps [simp del]

definition int64_via_float64 :: "int \<Rightarrow> int" where
  "int64_via_float64 x =
     (let a = \<bar>x\<bar>;
          e = float64_shift a;
          q = a div 2 ^ e;
          r = a mod 2 ^ e;
          q' = (if 2 ^ e < 2 * r \<or> (2 * r = 2 ^ e \<and> odd q) then q + 1 else q)
      in sgn x * (q' * 2 ^ e))"


text \<open>
  One nit-sot output that collects the entries of a sequence.
\<close>

definition collect_info :: scan_info where
  "collect_info = \<lparr>n_seqs = 1, n_mit_mot = 0, n_mit_mot_outs = 0, n_mit_sot = 0,
     n_sit_sot = 0, n_nit_sot = 1, n_shared_outs = 0, tap_array = [],
     mit_mot_out_slices = [], truncate_gradient = - 1, as_while = False, inplace = False\<rparr>"

definition first_input :: "int list \<Rightarrow> error + int list" where
  "first_input ins = Inr [ins ! 0]"

definition collect_args :: "int \<Rightarrow> int list \<Rightarrow> nat \<Rightarrow> int scan_args" where
  "collect_args n seq trip =
     \<lparr>arg_n_steps = n, arg_seqs = [seq], arg_init = [], arg_shared = [],
      arg_nit_sot = [trip], arg_other = []\<rparr>"

definition rev_env :: "int scan_env" where
  "rev_env = \<lparr>e_info = collect_info, e_fn = first_input, e_via_float64 = int64_via_float64,
     e_args = collect_args (- 2) [10, 20, 30] 2, e_n_steps = 2, e_seqs = [[30, 20, 10]],
     e_store_steps = [2]\<rparr>"

definition rev_st0 :: "int loop_state" where
  "rev_st0 = \<lparr>st_i = 0, st_cond = True, st_pos = [0], st_outs = [None], st_shared = []\<rparr>"

lemma rev_prepare:
  "prepare collect_info first_input int64_via_float64 (collect_args (- 2) [10, 20, 30] 2) [None] []
     = Inr (rev_env, rev_st0)"
  by (simp add: prepare_def unzip_steps_def collect_args_def collect_info_def init_pos_def
      store_steps_of_def mintaps_def n_outs_def rev_env_def rev_st0_def numpy_mod_def)

text \<open>
  A run that wraps: one nit-sot output with store length 3 collects the entries of a
  sequence of 4 entries during 4 steps.
\<close>

definition wrap_env :: "int list \<Rightarrow> int scan_env" where
  "wrap_env seq = \<lparr>e_info = collect_info, e_fn = first_input,
     e_via_float64 = int64_via_float64,
     e_args = collect_args 4 seq 3, e_n_steps = 4, e_seqs = [seq], e_store_steps = [3]\<rparr>"

definition wrap_st0 :: "int loop_state" where
  "wrap_st0 = \<lparr>st_i = 0, st_cond = True, st_pos = [0], st_outs = [None], st_shared = []\<rparr>"

definition wrap_st :: "int list \<Rightarrow> int loop_state" where
  "wrap_st buf = \<lparr>st_i = 4, st_cond = True, st_pos = [1], st_outs = [Some buf],
     st_shared = []\<rparr>"

lemma wrap_wf: "wf_call collect_info (collect_args 4 seq 3) [None]"
  by (simp add: wf_call_def collect_info_def collect_args_def n_outs_def)

lemma wrap_prepare:
  "length seq = 4 \<Longrightarrow>
   prepare collect_info first_input int64_via_float64 (collect_args 4 seq 3) [None] []
     = Inr (wrap_env seq, wrap_st0)"
  by (simp add: prepare_def unzip_steps_def collect_args_def collect_info_def init_pos_def
      store_steps_of_def mintaps_def n_outs_def wrap_env_def wrap_st0_def numpy_mod_def)



text \<open>
  A loop that counts: one sit-sot output, increased by one in each step, and a
  condition that stops the loop once the counter exceeds 3.
\<close>

definition counter_info :: scan_info where
  "counter_info = \<lparr>n_seqs = 0, n_mit_mot = 0, n_mit_mot_outs = 0, n_mit_sot = 0,
     n_sit_sot = 1, n_nit_sot = 0, n_shared_outs = 0, tap_array = [[- 1]],
     mit_mot_out_slices = [], truncate_gradient = - 1, as_while = True, inplace = False\<rparr>"

definition counter_fn :: "int list \<Rightarrow> error + int list" where
  "counter_fn ins = Inr [ins ! 0 + 1, if 3 < ins ! 0 + 1 then 1 else 0]"

definition counter_args :: "int scan_args" where
  "counter_args = \<lparr>arg_n_steps = 6, arg_seqs = [], arg_init = [[0, 9, 9, 9, 9, 9, 9, 9, 9]],
     arg_shared = [], arg_nit_sot = [], arg_other = []\<rparr>"

definition counter_env :: "int scan_env" where
  "counter_env = \<lparr>e_info = counter_info, e_fn = counter_fn,
     e_via_float64 = int64_via_float64, e_args = counter_args,
     e_n_steps = 6, e_seqs = [], e_store_steps = [9]\<rparr>"

definition counter_st :: "nat \<Rightarrow> bool \<Rightarrow> nat \<Rightarrow> int list \<Rightarrow> int loop_state" where
  "counter_st i c p buf =
     \<lparr>st_i = i, st_cond = c, st_pos = [p], st_outs = [Some buf], st_shared = []\<rparr>"

lemma counter_wf: "wf_call counter_info counter_args [None]"
  by (simp add: wf_call_def counter_info_def counter_args_def n_outs_def)

lemma counter_prepare:
  "prepare counter_info counter_fn int64_via_float64 counter_args [None] []
     = Inr (counter_env, counter_st 0 True 1 [0, 9, 9, 9, 9, 9, 9, 9, 9])"
  by (simp add: prepare_def unzip_steps_def counter_args_def counter_info_def init_pos_def
      store_steps_of_def mintaps_def n_outs_def counter_env_def counter_st_def alloc_out_def
      numpy_min_def numpy_mod_def)

lemma counter_iter:
  "loop_iter counter_env 2 (counter_st 0 True 1 [0, 9, 9, 9, 9, 9, 9, 9, 9])
     = Inr (counter_st 2 True 3 [0, 1, 2, 9, 9, 9, 9, 9, 9])"
  by code_simp

lemma counter_loop:
  "main_loop counter_env (counter_st 0 True 1 [0, 9, 9, 9, 9, 9, 9, 9, 9])
     = Inr (counter_st 4 False 5 [0, 1, 2, 3, 4, 9, 9, 9, 9])"
  by code_simp

lemma counter_reorder:
  "reorder counter_env (counter_st 4 False 5 [0, 1, 2, 3, 4, 9, 9, 9, 9])
     = Inr [Some [0, 1, 2, 3, 4, 0, 0]]"
  by code_simp

text \<open>The same loop with the number of steps given as \<open>n\<close>, negative or not.\<close>

definition counter_args_for :: "int \<Rightarrow> int scan_args" where
  "counter_args_for n = counter_args\<lparr>arg_n_steps := n\<rparr>"

definition counter_env_for :: "int \<Rightarrow> int scan_env" where
  "counter_env_for n = counter_env\<lparr>e_args := counter_args_for n, e_n_steps := nat \<bar>n\<bar>\<rparr>"

lemma counter_prepare_for:
  "prepare counter_info counter_fn int64_via_float64 (counter_args_for n) [None] []
     = Inr (counter_env_for n, counter_st 0 True 1 [0, 9, 9, 9, 9, 9, 9, 9, 9])"
  by (simp add: prepare_def unzip_steps_def counter_args_def counter_info_def init_pos_def
      store_steps_of_def mintaps_def n_outs_def counter_env_def counter_st_def alloc_out_def
      numpy_min_def numpy_mod_def counter_args_for_def counter_env_for_def)

text \<open>
  The backward op of one sit-sot recurrence: a mit-mot output with the taps 0 and 1
  and the out slice 1, whose inner function adds the two values it reads.
\<close>

definition backward_info :: scan_info where
  "backward_info = \<lparr>n_seqs = 0, n_mit_mot = 1, n_mit_mot_outs = 1, n_mit_sot = 0,
     n_sit_sot = 0, n_nit_sot = 0, n_shared_outs = 0, tap_array = [[0, 1]],
     mit_mot_out_slices = [[1]], truncate_gradient = - 1, as_while = False, inplace = False\<rparr>"

definition add_fn :: "int list \<Rightarrow> error + int list" where
  "add_fn ins = Inr [ins ! 0 + ins ! 1]"

definition backward_args :: "int scan_args" where
  "backward_args = \<lparr>arg_n_steps = 2, arg_seqs = [], arg_init = [[1, 2, 3]],
     arg_shared = [], arg_nit_sot = [], arg_other = []\<rparr>"

definition backward_env :: "int scan_env" where
  "backward_env = \<lparr>e_info = backward_info, e_fn = add_fn,
     e_via_float64 = int64_via_float64, e_args = backward_args,
     e_n_steps = 2, e_seqs = [], e_store_steps = [3]\<rparr>"

definition backward_st :: "nat \<Rightarrow> int list \<Rightarrow> int loop_state" where
  "backward_st i buf = \<lparr>st_i = i, st_cond = True, st_pos = [i], st_outs = [Some buf],
     st_shared = []\<rparr>"

lemma backward_wf: "wf_call backward_info backward_args [None]"
  by (simp add: wf_call_def backward_info_def backward_args_def n_outs_def)

lemma backward_prepare:
  "prepare backward_info add_fn int64_via_float64 backward_args [None] []
     = Inr (backward_env, backward_st 0 [1, 2, 3])"
  by (simp add: prepare_def unzip_steps_def backward_args_def backward_info_def init_pos_def
      store_steps_of_def mintaps_def n_outs_def backward_env_def backward_st_def alloc_out_def
      numpy_min_def numpy_mod_def)

lemma backward_execute:
  "execute backward_info add_fn int64_via_float64 backward_args [None] []
     = Inr ([Some [1, 3, 6]], [])"
  by code_simp

text \<open>
  A mit-mot output with the tap 0 and the out slice \<open>-1\<close>, whose inner function adds
  100 to the value it reads.
\<close>

definition behind_info :: scan_info where
  "behind_info = \<lparr>n_seqs = 0, n_mit_mot = 1, n_mit_mot_outs = 1, n_mit_sot = 0,
     n_sit_sot = 0, n_nit_sot = 0, n_shared_outs = 0, tap_array = [[0]],
     mit_mot_out_slices = [[- 1]], truncate_gradient = - 1, as_while = False,
     inplace = False\<rparr>"

definition mark_fn :: "int list \<Rightarrow> error + int list" where
  "mark_fn ins = Inr [ins ! 0 + 100]"

definition behind_env :: "int scan_env" where
  "behind_env = \<lparr>e_info = behind_info, e_fn = mark_fn,
     e_via_float64 = int64_via_float64, e_args = backward_args,
     e_n_steps = 2, e_seqs = [], e_store_steps = [3]\<rparr>"

lemma behind_prepare:
  "prepare behind_info mark_fn int64_via_float64 backward_args [None] []
     = Inr (behind_env, backward_st 0 [1, 2, 3])"
  by (simp add: prepare_def unzip_steps_def backward_args_def behind_info_def init_pos_def
      store_steps_of_def mintaps_def n_outs_def behind_env_def backward_st_def alloc_out_def
      numpy_min_def numpy_mod_def)

text \<open>
  An op in while mode with one output of each kind: a mit-mot output (taps 0 and 1,
  out slice 1), a sit-sot counter, a nit-sot output and a shared output. The inner
  function reads the two taps of the mit-mot output, the counter and the shared
  value; the condition stops the loop once the counter exceeds 1.
\<close>

definition mixed_info :: scan_info where
  "mixed_info = \<lparr>n_seqs = 0, n_mit_mot = 1, n_mit_mot_outs = 1, n_mit_sot = 0,
     n_sit_sot = 1, n_nit_sot = 1, n_shared_outs = 1, tap_array = [[0, 1], [- 1]],
     mit_mot_out_slices = [[1]], truncate_gradient = - 1, as_while = True, inplace = False\<rparr>"

definition mixed_fn :: "int list \<Rightarrow> error + int list" where
  "mixed_fn ins =
     Inr [ins ! 0 + ins ! 1, ins ! 2 + 1, 10 * (ins ! 2 + 1), ins ! 3 + 2,
          if 1 < ins ! 2 + 1 then 1 else 0]"

definition mixed_args :: "int scan_args" where
  "mixed_args = \<lparr>arg_n_steps = 5, arg_seqs = [],
     arg_init = [[1, 2, 3, 4, 5, 6], [0, 9, 9, 9, 9, 9]],
     arg_shared = [7], arg_nit_sot = [5], arg_other = []\<rparr>"

definition mixed_env :: "int scan_env" where
  "mixed_env = \<lparr>e_info = mixed_info, e_fn = mixed_fn,
     e_via_float64 = int64_via_float64, e_args = mixed_args,
     e_n_steps = 5, e_seqs = [], e_store_steps = [6, 6, 5]\<rparr>"

definition mixed_st1 :: "int loop_state" where
  "mixed_st1 = \<lparr>st_i = 1, st_cond = True, st_pos = [1, 2, 1],
     st_outs = [Some [1, 3, 3, 4, 5, 6], Some [0, 1, 9, 9, 9, 9], Some [10, 0, 0, 0, 0]],
     st_shared = [9]\<rparr>"

definition mixed_st2 :: "int loop_state" where
  "mixed_st2 = \<lparr>st_i = 2, st_cond = False, st_pos = [2, 3, 2],
     st_outs = [Some [1, 3, 6, 4, 5, 6], Some [0, 1, 2, 9, 9, 9], Some [10, 20, 0, 0, 0]],
     st_shared = [11]\<rparr>"

lemma mixed_prepare:
  "prepare mixed_info mixed_fn int64_via_float64 mixed_args [None, None, None] [0]
     = Inr (mixed_env,
            \<lparr>st_i = 0, st_cond = True, st_pos = [0, 1, 0],
             st_outs = [Some [1, 2, 3, 4, 5, 6], Some [0, 9, 9, 9, 9, 9], None],
             st_shared = [0]\<rparr>)"
  by (simp add: prepare_def unzip_steps_def mixed_args_def mixed_info_def init_pos_def
      store_steps_of_def mintaps_def n_outs_def mixed_env_def alloc_out_def
      numpy_min_def numpy_mod_def upt_conv_Cons)

lemma mixed_first_step:
  "loop_body mixed_env
     \<lparr>st_i = 0, st_cond = True, st_pos = [0, 1, 0],
      st_outs = [Some [1, 2, 3, 4, 5, 6], Some [0, 9, 9, 9, 9, 9], None],
      st_shared = [0]\<rparr> = Inr mixed_st1"
  by code_simp

lemma mixed_second_step: "loop_body mixed_env mixed_st1 = Inr mixed_st2"
  by code_simp

text \<open>Ops for the gradient constructor.\<close>

definition truncated_info :: scan_info where
  "truncated_info = \<lparr>n_seqs = 0, n_mit_mot = 0, n_mit_mot_outs = 0, n_mit_sot = 0,
     n_sit_sot = 1, n_nit_sot = 0, n_shared_outs = 0, tap_array = [[- 1]],
     mit_mot_out_slices = [], truncate_gradient = 5, as_while = False, inplace = False\<rparr>"

definition second_order_info :: scan_info where
  "second_order_info = \<lparr>n_seqs = 0, n_mit_mot = 1, n_mit_mot_outs = 1, n_mit_sot = 1,
     n_sit_sot = 0, n_nit_sot = 0, n_shared_outs = 0, tap_array = [[0, 1], [- 2, - 1]],
     mit_mot_out_slices = [[1]], truncate_gradient = - 1, as_while = False, inplace = False\<rparr>"

definition recurrent_info :: scan_info where
  "recurrent_info = \<lparr>n_seqs = 1, n_mit_mot = 0, n_mit_mot_outs = 0, n_mit_sot = 1,
     n_sit_sot = 1, n_nit_sot = 0, n_shared_outs = 0, tap_array = [[- 2, - 1], [- 1]],
     mit_mot_out_slices = [], truncate_gradient = - 1, as_while = False, inplace = False\<rparr>"

section \<open>The claims about the executor\<close>

subsection \<open>Positions and tap reads\<close>

text \<open>
  Claim C1 says, for every tap-bearing output, that the read of a tap at step \<open>i\<close>
  yields the value written at step \<open>i + tap\<close>, or the seeded initial value when
  \<open>i + tap < 0\<close>. A mit-mot output is tap-bearing, has taps that are not negative and
  is written at \<open>position + k\<close> for its out slices \<open>k\<close>: in the backward op below, the
  read of tap 1 at step 0 yields the seeded entry 2 of the initial state, although
  \<open>i + tap = 1\<close> is not negative, and not the value 6, the only one that step 1 writes.
\<close>

theorem mit_mot_tap_reads_seed:
  "prepare backward_info add_fn int64_via_float64 backward_args [None] []
     = Inr (backward_env, backward_st 0 [1, 2, 3]) \<and>
   1 \<in> set (tap_array backward_info ! 0) \<and> 0 \<le> int 0 + 1 \<and>
   tap_read backward_env (backward_st 0 [1, 2, 3]) 0 1 = Inr 2 \<and>
   arg_init backward_args ! 0 ! 1 = 2 \<and>
   step_outputs backward_env (backward_st 0 [1, 2, 3]) 0 = Some [3] \<and>
   step_outputs backward_env (backward_st 0 [1, 2, 3]) 1 = Some [6] \<and>
   execute backward_info add_fn int64_via_float64 backward_args [None] []
     = Inr ([Some [1, 3, 6]], [])"
proof -
  have r: "tap_read backward_env (backward_st 0 [1, 2, 3]) 0 1 = Inr 2" by code_simp
  have s0: "step_outputs backward_env (backward_st 0 [1, 2, 3]) 0 = Some [3]" by code_simp
  have s1: "step_outputs backward_env (backward_st 0 [1, 2, 3]) 1 = Some [6]" by code_simp
  from backward_prepare backward_execute r s0 s1 show ?thesis
    by (simp add: backward_info_def backward_args_def)
qed

text \<open>
  Claim C1, as amended. For every tracked output, whatever its kind, the position is
  initialized to \<open>(- min_tap) mod store_steps\<close> and advanced by \<open>+1 mod store_steps\<close> after
  each iteration, so it is \<open>(initial position + i) mod store_steps\<close> after \<open>i\<close> iterations
  (the \<^verbatim>\<open>%\<close> of numpy: 0 for a store length 0). For every mit-sot and sit-sot output,
  whose taps are negative, with a buffer of at least \<open>- min_tap\<close> entries, the read of a
  tap at step \<open>i\<close> via \<open>(position + tap) mod store_steps\<close> yields the value written in
  iteration \<open>i + tap\<close> (the output slot of that output, after the slots of the mit-mot
  slices), or the entry \<open>i + tap - min_tap\<close> of the caller's initial state when
  \<open>i + tap < 0\<close>.
\<close>

theorem ring_buffer_read:
  assumes wf: "wf_call info args outs"
    and p: "prepare info fn via args outs shared = Inr (env, st0)"
    and it: "loop_iter env i st0 = Inr st" and i: "st_i st = i"
  shows "(\<forall>idx<n_outs info + n_nit_sot info.
            st_pos st0 ! idx =
              (if store_steps_of args ! idx = 0 then 0
               else nat ((- (mintaps info ! idx)) mod int (store_steps_of args ! idx))) \<and>
            st_pos st ! idx =
              (if store_steps_of args ! idx = 0 then 0
               else (st_pos st0 ! idx + i) mod store_steps_of args ! idx) \<and>
            (\<forall>st'. loop_guard env st \<longrightarrow> loop_body env st = Inr st' \<longrightarrow>
               st_pos st' ! idx =
                 (if store_steps_of args ! idx = 0 then 0
                  else (st_pos st ! idx + 1) mod store_steps_of args ! idx))) \<and>
         (\<forall>j tap. n_mit_mot info \<le> j \<longrightarrow> j < n_outs info \<longrightarrow>
            tap \<in> set (tap_array info ! j) \<longrightarrow> tap < 0 \<longrightarrow>
            - (mintaps info ! j) \<le> int (store_steps_of args ! j) \<longrightarrow>
            (\<exists>v. tap_read env st j tap = Inr v \<and>
               (if 0 \<le> int i + tap
                then written env st0 (nat (int i + tap)) j = Some v
                else v = arg_init args ! j ! nat (int i + tap - mintaps info ! j))))"
proof -
  note pe = prepare_Inr [OF p]
  have it0: "loop_iter env 0 st0 = Inr st0" by simp
  have positions:
    "st_pos st0 ! idx =
       (if store_steps_of args ! idx = 0 then 0
        else nat ((- (mintaps info ! idx)) mod int (store_steps_of args ! idx))) \<and>
     st_pos st ! idx =
       (if store_steps_of args ! idx = 0 then 0
        else (st_pos st0 ! idx + i) mod store_steps_of args ! idx) \<and>
     (\<forall>st'. loop_guard env st \<longrightarrow> loop_body env st = Inr st' \<longrightarrow>
        st_pos st' ! idx =
          (if store_steps_of args ! idx = 0 then 0
           else (st_pos st ! idx + 1) mod store_steps_of args ! idx))"
    if idx: "idx < n_outs info + n_nit_sot info" for idx
  proof -
    let ?S = "store_steps_of args ! idx" and ?m = "mintaps info ! idx"
    have p0: "st_pos st0 ! idx = nat (numpy_mod (- ?m) (int ?S))"
      using iter_cell(2) [OF wf p it0 idx] pe(6) by simp
    have pi: "st_pos st ! idx = nat (numpy_mod (int i - ?m) (int ?S))"
      using iter_cell(2) [OF wf p it idx] i by simp
    have a: "st_pos st0 ! idx = (if ?S = 0 then 0 else nat ((- ?m) mod int ?S))"
      using p0 by (simp add: numpy_mod_def)
    have b: "st_pos st ! idx = (if ?S = 0 then 0 else (st_pos st0 ! idx + i) mod ?S)"
    proof (cases "?S = 0")
      case True
      with pi show ?thesis by (simp add: numpy_mod_def)
    next
      case False
      have "st_pos st ! idx = nat (numpy_mod (int (st_pos st0 ! idx) + int i) (int ?S))"
        unfolding pi p0 by (rule pos_closed_form)
      also have "\<dots> = nat ((int (st_pos st0 ! idx) + int i) mod int ?S)"
        using False by (simp add: numpy_mod_def)
      also have "\<dots> = (st_pos st0 ! idx + i) mod ?S"
        by (simp add: nat_mod_as_int)
      finally show ?thesis using False by simp
    qed
    have c: "st_pos st' ! idx = (if ?S = 0 then 0 else (st_pos st ! idx + 1) mod ?S)"
      if g: "loop_guard env st" and bd: "loop_body env st = Inr st'" for st'
    proof -
      from it g bd have it': "loop_iter env (Suc i) st0 = Inr st'" by simp
      have "st_pos st' ! idx = nat (numpy_mod (int (st_i st') - ?m) (int ?S))"
        by (rule iter_cell(2) [OF wf p it' idx])
      also have "int (st_i st') - ?m = int i - ?m + 1"
        using loop_body_i [OF bd] i by simp
      also have "nat (numpy_mod (int i - ?m + 1) (int ?S))
                   = nat (numpy_mod (int (st_pos st ! idx) + 1) (int ?S))"
        unfolding pi by (rule pos_advance [symmetric])
      also have "\<dots> = (if ?S = 0 then 0 else (st_pos st ! idx + 1) mod ?S)"
        by (simp add: numpy_mod_def nat_mod_as_int add.commute)
      finally show ?thesis .
    qed
    from a b c show ?thesis by blast
  qed
  have reads: "\<exists>v. tap_read env st j tap = Inr v \<and>
               (if 0 \<le> int i + tap
                then written env st0 (nat (int i + tap)) j = Some v
                else v = arg_init args ! j ! nat (int i + tap - mintaps info ! j))"
    if j: "n_mit_mot info \<le> j" "j < n_outs info"
      and tap: "tap \<in> set (tap_array info ! j)" "tap < 0"
      and S: "- (mintaps info ! j) \<le> int (store_steps_of args ! j)"
    for j tap
  proof -
    let ?S = "store_steps_of args ! j" and ?m = "mintaps info ! j"
    from j have jN: "j < n_outs info + n_nit_sot info" by simp
    from j(2) have ex: "j < n_outs info \<or> 0 < i" by simp
    from ring_inv [OF wf p j(1) jN S it i ex] obtain buf where
      buf: "st_outs st ! j = Some buf" "length buf = ?S" and
      ring: "\<And>t. ?m \<le> t \<Longrightarrow> int i - int ?S \<le> t \<Longrightarrow> t < int i \<Longrightarrow>
                ring_value env st0 j t = Some (buf ! nat ((t - ?m) mod int ?S))"
      by blast
    have m: "?m \<le> tap"
      using numpy_min_le [OF tap(1)] wf_lengths(4) [OF wf j(2)] by simp
    with tap(2) S have Spos: "0 < ?S" by simp
    have pos: "st_pos st ! j = nat ((int i - ?m) mod int ?S)"
      using iter_cell(2) [OF wf p it jN] i numpy_mod_pos [OF Spos] by simp
    let ?t = "int i + tap"
    have idx: "numpy_mod (int (st_pos st ! j) + tap) (int ?S) = (?t - ?m) mod int ?S"
    proof -
      have "int (st_pos st ! j) = (int i - ?m) mod int ?S" using pos Spos by simp
      then have "(int (st_pos st ! j) + tap) mod int ?S
                   = ((int i - ?m) mod int ?S + tap) mod int ?S"
        by simp
      also have "\<dots> = (int i - ?m + tap) mod int ?S" by (simp add: mod_add_left_eq)
      also have "int i - ?m + tap = ?t - ?m" by simp
      finally show ?thesis using Spos by (simp add: numpy_mod_def)
    qed
    have rng: "0 \<le> (?t - ?m) mod int ?S" "(?t - ?m) mod int ?S < int (length buf)"
      using Spos buf(2) by simp_all
    have read: "tap_read env st j tap = Inr (buf ! nat ((?t - ?m) mod int ?S))"
      using buf rng pe(4) by (simp add: tap_read_def idx getitem_def py_index_def)
    have "ring_value env st0 j ?t = Some (buf ! nat ((?t - ?m) mod int ?S))"
      using m S tap(2) by (intro ring) simp_all
    then have val: "if 0 \<le> ?t
                 then written env st0 (nat ?t) j = Some (buf ! nat ((?t - ?m) mod int ?S))
                 else buf ! nat ((?t - ?m) mod int ?S) = arg_init args ! j ! nat (?t - ?m)"
      using pe(1,3) by (auto simp: ring_value_def)
    from read val show ?thesis by auto
  qed
  from positions reads show ?thesis by blast
qed

theorem ring_buffer_read_witness:
  "st_pos (counter_st 0 True 1 [0, 9, 9, 9, 9, 9, 9, 9, 9]) ! 0 = nat (1 mod 9) \<and>
   st_pos (counter_st 2 True 3 [0, 1, 2, 9, 9, 9, 9, 9, 9]) ! 0 = (1 + 2) mod 9 \<and>
   (\<exists>v. tap_read counter_env (counter_st 2 True 3 [0, 1, 2, 9, 9, 9, 9, 9, 9]) 0 (- 1) = Inr v \<and>
        written counter_env (counter_st 0 True 1 [0, 9, 9, 9, 9, 9, 9, 9, 9]) 1 0 = Some v) \<and>
   (\<exists>v. tap_read counter_env (counter_st 0 True 1 [0, 9, 9, 9, 9, 9, 9, 9, 9]) 0 (- 1) = Inr v \<and>
        v = arg_init counter_args ! 0 ! 0) \<and>
   st_pos (backward_st 1 [1, 3, 3]) ! 0 = (0 + 1) mod 3 \<and>
   st_pos (wrap_st [40, 20, 30]) ! 0 = (0 + 4) mod 3"
proof -
  let ?first = "counter_st 0 True 1 [0, 9, 9, 9, 9, 9, 9, 9, 9]"
  let ?later = "counter_st 2 True 3 [0, 1, 2, 9, 9, 9, 9, 9, 9]"
  have i0: "loop_iter counter_env 0 ?first = Inr ?first" by simp
  have a: "st_i ?later = 2" and a0: "st_i ?first = 0" by (simp_all add: counter_st_def)
  note later = ring_buffer_read [OF counter_wf counter_prepare counter_iter a]
  note first = ring_buffer_read [OF counter_wf counter_prepare i0 a0]
  have n: "0 < n_outs counter_info + n_nit_sot counter_info"
    by (simp add: counter_info_def n_outs_def)
  have b: "n_mit_mot counter_info \<le> 0" and c: "0 < n_outs counter_info"
    by (simp_all add: counter_info_def n_outs_def)
  have d: "- 1 \<in> set (tap_array counter_info ! 0)" and e: "(- 1 :: int) < 0"
    by (simp_all add: counter_info_def)
  have f: "- (mintaps counter_info ! 0) \<le> int (store_steps_of counter_args ! 0)"
    by (simp add: mintaps_def counter_info_def numpy_min_def store_steps_of_def counter_args_def)
  have bi: "loop_iter backward_env 1 (backward_st 0 [1, 2, 3]) = Inr (backward_st 1 [1, 3, 3])"
    by code_simp
  have bs: "st_i (backward_st 1 [1, 3, 3]) = 1" by (simp add: backward_st_def)
  note bwd = ring_buffer_read [OF backward_wf backward_prepare bi bs]
  have bn: "0 < n_outs backward_info + n_nit_sot backward_info"
    by (simp add: backward_info_def n_outs_def)
  have wp: "prepare collect_info first_input int64_via_float64 (collect_args 4 [10, 20, 30, 40] 3)
              [None] [] = Inr (wrap_env [10, 20, 30, 40], wrap_st0)"
    by (rule wrap_prepare) simp
  have wi: "loop_iter (wrap_env [10, 20, 30, 40]) 4 wrap_st0 = Inr (wrap_st [40, 20, 30])"
    by code_simp
  have ws: "st_i (wrap_st [40, 20, 30]) = 4" by (simp add: wrap_st_def)
  note wrap = ring_buffer_read [OF wrap_wf wp wi ws]
  have wn: "0 < n_outs collect_info + n_nit_sot collect_info"
    by (simp add: collect_info_def n_outs_def)
  from later [THEN conjunct1, rule_format, OF n]
    first [THEN conjunct1, rule_format, OF n]
    later [THEN conjunct2, rule_format, OF b c d e f]
    first [THEN conjunct2, rule_format, OF b c d e f]
    bwd [THEN conjunct1, rule_format, OF bn]
    wrap [THEN conjunct1, rule_format, OF wn]
  show ?thesis
    by (simp add: mintaps_def counter_info_def numpy_min_def store_steps_of_def counter_args_def
        backward_args_def backward_st_def collect_args_def wrap_st0_def)
qed

subsection \<open>Direction of the sequences and number of iterations\<close>

text \<open>
  Claim C2 says that with a negative \<open>n_steps\<close> iteration \<open>i\<close> reads the slice that a
  forward run of \<open>|n_steps|\<close> steps reads at iteration \<open>|n_steps| - 1 - i\<close>. The
  executor reverses the whole sequence, so a sequence with more than \<open>|n_steps|\<close>
  entries is read from its end: over \<open>[10, 20, 30]\<close> with \<open>n_steps = -2\<close> the run reads
  30, then 20, where the forward run of 2 steps reads 10, then 20. The claim also says
  that the loop of every such invocation runs for \<open>|n_steps|\<close> iterations: the loop of
  an op in while mode ends when its condition does, here after 4 iterations with
  \<open>n_steps = -6\<close>.
\<close>

theorem reversed_run_reads_from_the_end:
  "execute collect_info first_input int64_via_float64 (collect_args (- 2) [10, 20, 30] 2) [None] []
     = Inr ([Some [30, 20]], []) \<and>
   execute collect_info first_input int64_via_float64 (collect_args 2 [10, 20, 30] 2) [None] []
     = Inr ([Some [10, 20]], []) \<and>
   [30, 20] \<noteq> rev [10, 20 :: int] \<and>
   prepare counter_info counter_fn int64_via_float64 (counter_args_for (- 6)) [None] []
     = Inr (counter_env_for (- 6), counter_st 0 True 1 [0, 9, 9, 9, 9, 9, 9, 9, 9]) \<and>
   main_loop (counter_env_for (- 6)) (counter_st 0 True 1 [0, 9, 9, 9, 9, 9, 9, 9, 9])
     = Inr (counter_st 4 False 5 [0, 1, 2, 3, 4, 9, 9, 9, 9]) \<and>
   st_i (counter_st 4 False 5 [0, 1, 2, 3, 4, 9, 9, 9, 9]) \<noteq> nat \<bar>- 6\<bar>"
proof -
  have a: "execute collect_info first_input int64_via_float64
             (collect_args (- 2) [10, 20, 30] 2) [None] [] = Inr ([Some [30, 20]], [])"
    by code_simp
  have b: "execute collect_info first_input int64_via_float64
             (collect_args 2 [10, 20, 30] 2) [None] [] = Inr ([Some [10, 20]], [])"
    by code_simp
  have c: "main_loop (counter_env_for (- 6)) (counter_st 0 True 1 [0, 9, 9, 9, 9, 9, 9, 9, 9])
             = Inr (counter_st 4 False 5 [0, 1, 2, 3, 4, 9, 9, 9, 9])"
    by code_simp
  from a b c counter_prepare_for [of "- 6"] show ?thesis by (simp add: counter_st_def)
qed

text \<open>
  Claim C2, as amended. The loop of a call that returns runs for exactly \<open>|n_steps|\<close>
  iterations when the op is not in while mode; in while mode it runs for at most
  \<open>|n_steps|\<close> iterations, and for fewer only when the condition has ended it. With a
  negative \<open>n_steps\<close> iteration \<open>i\<close> reads entry \<open>length seq - 1 - i\<close> of every plain
  sequence, which is the entry that the forward run of \<open>|n_steps|\<close> steps reads at
  iteration \<open>|n_steps| - 1 - i\<close> when the sequence has exactly \<open>|n_steps|\<close> entries; with
  a non-negative \<open>n_steps\<close> iteration \<open>i\<close> reads entry \<open>i\<close>.
\<close>

theorem sequence_direction:
  assumes "prepare info fn via args outs shared = Inr (env, st0)"
  shows "e_n_steps env = nat \<bar>arg_n_steps args\<bar> \<and>
         (\<forall>final. main_loop env st0 = Inr final \<longrightarrow>
            loop_iter env (st_i final) st0 = Inr final \<and>
            st_i final \<le> nat \<bar>arg_n_steps args\<bar> \<and>
            (\<not> as_while info \<longrightarrow> st_i final = nat \<bar>arg_n_steps args\<bar>) \<and>
            (st_i final < nat \<bar>arg_n_steps args\<bar> \<longrightarrow> as_while info \<and> \<not> st_cond final)) \<and>
         (\<forall>idx st ins. idx < n_seqs info \<longrightarrow> idx < length (arg_seqs args) \<longrightarrow>
            st_i st < nat \<bar>arg_n_steps args\<bar> \<longrightarrow> inner_inputs env st = Inr ins \<longrightarrow>
            ins ! idx =
              (if arg_n_steps args < 0
               then arg_seqs args ! idx ! (length (arg_seqs args ! idx) - 1 - st_i st)
               else arg_seqs args ! idx ! st_i st) \<and>
            (length (arg_seqs args ! idx) = nat \<bar>arg_n_steps args\<bar> \<longrightarrow> arg_n_steps args < 0 \<longrightarrow>
               ins ! idx = arg_seqs args ! idx ! (nat \<bar>arg_n_steps args\<bar> - 1 - st_i st)))"
proof -
  note p = prepare_Inr [OF assms(1)]
  note u = unzip_steps_Inr [OF p(5)]
  have n: "e_n_steps env = nat \<bar>arg_n_steps args\<bar>" by (rule u(1))
  have count: "loop_iter env (st_i final) st0 = Inr final \<and>
            st_i final \<le> nat \<bar>arg_n_steps args\<bar> \<and>
            (\<not> as_while info \<longrightarrow> st_i final = nat \<bar>arg_n_steps args\<bar>) \<and>
            (st_i final < nat \<bar>arg_n_steps args\<bar> \<longrightarrow> as_while info \<and> \<not> st_cond final)"
    if m: "main_loop env st0 = Inr final" for final
    using main_loop_count [OF m p(6,7)] n p(1) by auto
  have val: "ins ! idx =
              (if arg_n_steps args < 0
               then arg_seqs args ! idx ! (length (arg_seqs args ! idx) - 1 - st_i st)
               else arg_seqs args ! idx ! st_i st) \<and>
            (length (arg_seqs args ! idx) = nat \<bar>arg_n_steps args\<bar> \<longrightarrow> arg_n_steps args < 0 \<longrightarrow>
               ins ! idx = arg_seqs args ! idx ! (nat \<bar>arg_n_steps args\<bar> - 1 - st_i st))"
    if a: "idx < n_seqs info" "idx < length (arg_seqs args)"
      "st_i st < nat \<bar>arg_n_steps args\<bar>" "inner_inputs env st = Inr ins"
    for idx st ins
  proof -
    let ?seq = "arg_seqs args ! idx"
    have mem: "?seq \<in> set (arg_seqs args)" using a(2) by simp
    with u(3) have len: "e_n_steps env \<le> length ?seq" by blast
    have "ins ! idx = e_seqs env ! idx ! st_i st"
      using inner_inputs_seq [OF a(4)] a(1) p(1) by simp
    also have "e_seqs env ! idx = (if arg_n_steps args < 0 then rev ?seq else ?seq)"
      using u(2) a(2) by simp
    finally have r: "ins ! idx = (if arg_n_steps args < 0 then rev ?seq else ?seq) ! st_i st" .
    have i: "st_i st < length ?seq" using a(3) len n by simp
    have "ins ! idx =
           (if arg_n_steps args < 0
            then ?seq ! (length ?seq - 1 - st_i st)
            else ?seq ! st_i st)"
      using r i by (simp add: rev_nth)
    then show ?thesis by simp
  qed
  from n count val show ?thesis by blast
qed

theorem sequence_direction_witness:
  "prepare collect_info first_input int64_via_float64 (collect_args (- 2) [10, 20, 30] 2) [None] []
     = Inr (rev_env, rev_st0) \<and>
   e_n_steps rev_env = 2 \<and>
   main_loop rev_env rev_st0
     = Inr \<lparr>st_i = 2, st_cond = True, st_pos = [0], st_outs = [Some [30, 20]], st_shared = []\<rparr> \<and>
   loop_iter rev_env 2 rev_st0
     = Inr \<lparr>st_i = 2, st_cond = True, st_pos = [0], st_outs = [Some [30, 20]], st_shared = []\<rparr> \<and>
   inner_inputs rev_env rev_st0 = Inr [30] \<and>
   [30 :: int] ! 0 = [10, 20, 30] ! 2"
proof -
  let ?final = "\<lparr>st_i = 2, st_cond = True, st_pos = [0], st_outs = [Some [30, 20 :: int]],
                 st_shared = []\<rparr>"
  have m: "main_loop rev_env rev_st0 = Inr ?final" by code_simp
  have i: "inner_inputs rev_env rev_st0 = Inr [30]"
    by (simp add: inner_inputs_def tap_slots_def rev_env_def rev_st0_def collect_info_def
        n_outs_def collect_args_def)
  have a: "0 < n_seqs collect_info" by (simp add: collect_info_def)
  have b: "0 < length (arg_seqs (collect_args (- 2) [10, 20, 30] 2))"
    by (simp add: collect_args_def)
  have c: "st_i rev_st0 < nat \<bar>arg_n_steps (collect_args (- 2) [10, 20, 30] 2)\<bar>"
    by (simp add: rev_st0_def collect_args_def)
  note t = sequence_direction [OF rev_prepare]
  from t [THEN conjunct1] t [THEN conjunct2, THEN conjunct1, rule_format, OF m]
    t [THEN conjunct2, THEN conjunct2, rule_format, OF a b c i] rev_prepare m i
  show ?thesis
    by (simp add: collect_args_def rev_st0_def)
qed

subsection \<open>Zero padding after an early end\<close>

text \<open>
  Claim C3: for an output after the mit-mot block with
  \<open>store_steps > executed_steps - min_tap\<close>, every entry of the buffer from index
  \<open>executed_steps - min_tap\<close> on is zero after the loop and the entries before are
  kept; when \<open>executed_steps < n_steps\<close>, the last \<open>n_steps - executed_steps\<close> entries are
  removed as well. (\<open>min_tap\<close> of such an output is at most 0, so the index is not
  negative.)
\<close>

theorem unexecuted_tail_zeroed:
  assumes wf: "wf_call info args outs"
    and p: "prepare info fn via args outs shared = Inr (env, st0)"
    and m: "main_loop env st0 = Inr st"
    and r: "reorder env st = Inr outs'"
    and idx: "n_mit_mot info \<le> idx" "idx < n_outs info + n_nit_sot info"
    and early: "int (store_steps_of args ! idx) > int (st_i st) - mintaps info ! idx"
    and past: "mintaps info ! idx \<le> int (st_i st)"
  shows "\<exists>buf res. st_outs st ! idx = Some buf \<and> outs' ! idx = Some res \<and>
           length res = (if st_i st < e_n_steps env
                         then length buf - (e_n_steps env - st_i st) else length buf) \<and>
           (\<forall>k<length res. res ! k =
              (if int k < int (st_i st) - mintaps info ! idx then buf ! k else 0))"
proof -
  note pe = prepare_Inr [OF p]
  note fc = final_cell [OF wf p m idx(2)]
  have c: "reorder_cell env st idx (st_outs st ! idx) = Inr (outs' ! idx)"
    using reorder_Inr(2) [OF r, of idx] idx fc(1) pe(1) by simp
  have "st_outs st ! idx \<noteq> None"
  proof
    assume "st_outs st ! idx = None"
    with c early pe(1,4) show False by (simp add: reorder_cell_def Let_def)
  qed
  then obtain buf where buf: "st_outs st ! idx = Some buf" by auto
  from zeroed_cell [of env st outs' idx buf] r idx fc(1) buf early past pe(1,4)
  show ?thesis by auto
qed

theorem unexecuted_tail_zeroed_witness:
  "main_loop counter_env (counter_st 0 True 1 [0, 9, 9, 9, 9, 9, 9, 9, 9])
     = Inr (counter_st 4 False 5 [0, 1, 2, 3, 4, 9, 9, 9, 9]) \<and>
   reorder counter_env (counter_st 4 False 5 [0, 1, 2, 3, 4, 9, 9, 9, 9])
     = Inr [Some [0, 1, 2, 3, 4, 0, 0]] \<and>
   (\<exists>res. [Some [0, 1, 2, 3, 4, 0, 0]] ! 0 = Some res \<and> length res = 9 - (6 - 4) \<and>
      (\<forall>k<length res. res ! k =
         (if int k < 5 then [0, 1, 2, 3, 4, 9, 9, 9, 9] ! k else (0::int))))"
proof -
  let ?final = "counter_st 4 False 5 [0, 1, 2, 3, 4, 9, 9, 9, 9]"
  have a: "n_mit_mot counter_info \<le> 0" by (simp add: counter_info_def)
  have b: "0 < n_outs counter_info + n_nit_sot counter_info"
    by (simp add: counter_info_def n_outs_def)
  have c: "int (store_steps_of counter_args ! 0) > int (st_i ?final) - mintaps counter_info ! 0"
    by (simp add: store_steps_of_def counter_args_def counter_st_def counter_info_def
        mintaps_def numpy_min_def)
  have d: "mintaps counter_info ! 0 \<le> int (st_i ?final)"
    by (simp add: counter_st_def counter_info_def mintaps_def numpy_min_def)
  from unexecuted_tail_zeroed [OF counter_wf counter_prepare counter_loop counter_reorder a b c d]
    counter_loop counter_reorder
  show ?thesis
    by (simp add: counter_env_def counter_st_def counter_info_def mintaps_def numpy_min_def)
qed

subsection \<open>Rotation of a wrapped buffer\<close>




subsection \<open>Validation at the start of the loop\<close>

text \<open>
  Claim C8 says that the executor raises before any iteration when a plain sequence
  has fewer than \<open>|n_steps|\<close> entries, and likewise when a nit-sot trip count is
  smaller than the number of steps. The executor has no check of the trip counts:
  a trip count is only taken as the store length of its output, and a smaller one
  makes the output a ring. The run below, with trip count 1 and 2 steps, ends
  without an error and keeps the value of the last step.
\<close>

theorem short_trip_count_runs:
  "arg_nit_sot (collect_args 2 [10, 20] 1) ! 0 < nat \<bar>arg_n_steps (collect_args 2 [10, 20] 1)\<bar> \<and>
   execute collect_info first_input int64_via_float64 (collect_args 2 [10, 20] 1) [None] []
     = Inr ([Some [20]], [])"
  by code_simp

text \<open>
  Claim C8, as amended: when some plain sequence has fewer than \<open>|n_steps|\<close> entries,
  step 1 raises ValueError, whatever the inner function is. No iteration runs then:
  the environment and the first state of the loop are never built. (Trip counts of
  nit-sot outputs are not validated.)
\<close>

theorem short_sequence_raises:
  assumes "\<exists>seq\<in>set (arg_seqs args). length seq < nat \<bar>arg_n_steps args\<bar>"
  shows "prepare info fn via args outs shared = Inl ValueError \<and>
         execute info fn via args outs shared = Inl ValueError"
proof -
  from assms have "collect_seqs flip (nat \<bar>arg_n_steps args\<bar>) (arg_seqs args) = Inl ValueError"
    for flip by (rule collect_seqs_short)
  from this [of True] this [of False] have "unzip_steps args = Inl ValueError"
    by (cases "arg_n_steps args < 0") (simp_all add: unzip_steps_def)
  then have "prepare info fn via args outs shared = Inl ValueError"
    by (simp add: prepare_def)
  then show ?thesis by (simp add: execute_def)
qed

theorem short_sequence_raises_witness:
  "prepare collect_info first_input int64_via_float64 (collect_args 2 [10] 2) [None] []
     = Inl ValueError \<and>
   execute collect_info first_input int64_via_float64 (collect_args 2 [10] 2) [None] []
     = Inl ValueError"
  using short_sequence_raises [of "collect_args 2 [10] 2" collect_info first_input
      int64_via_float64 "[None]" "[]"]
  by (simp add: collect_args_def)

subsection \<open>Mit-mot outputs\<close>

text \<open>
  Claim C9 says that every out slice \<open>k\<close> of a mit-mot output is written at the
  absolute buffer index \<open>position + k\<close>, with no wrapping modulo the store length. The
  index \<^verbatim>\<open>k + pos[j]\<close> is handed to the array as it is, and the array counts a
  negative index from its end: with the out slice \<open>-1\<close> and position 0 the index is
  \<open>-1\<close>, which is no buffer index, and the value 101 of the first step lands in entry 2
  of the buffer of 3 entries, that is at \<open>(position + k) mod store_steps\<close>.
\<close>

theorem negative_slice_index_wraps:
  "prepare behind_info mark_fn int64_via_float64 backward_args [None] []
     = Inr (behind_env, backward_st 0 [1, 2, 3]) \<and>
   mit_mot_out_slices behind_info ! 0 = [- 1] \<and>
   st_pos (backward_st 0 [1, 2, 3]) ! 0 = 0 \<and>
   e_store_steps behind_env ! 0 = 3 \<and>
   step_outputs behind_env (backward_st 0 [1, 2, 3]) 0 = Some [101] \<and>
   loop_body behind_env (backward_st 0 [1, 2, 3]) = Inr (backward_st 1 [1, 2, 101]) \<and>
   [1, 2, 101 :: int] ! 2 = 101 \<and> (- 1 + int 0) mod 3 = 2 \<and>
   execute behind_info mark_fn int64_via_float64 backward_args [None] []
     = Inr ([Some [102, 2, 101]], [])"
proof -
  have s: "step_outputs behind_env (backward_st 0 [1, 2, 3]) 0 = Some [101]" by code_simp
  have b: "loop_body behind_env (backward_st 0 [1, 2, 3]) = Inr (backward_st 1 [1, 2, 101])"
    by code_simp
  have e: "execute behind_info mark_fn int64_via_float64 backward_args [None] []
     = Inr ([Some [102, 2, 101]], [])" by code_simp
  from behind_prepare s b e show ?thesis
    by (simp add: behind_info_def backward_st_def behind_env_def)
qed

text \<open>
  Claim C9, as amended. In an iteration that succeeds, every out slice \<open>k\<close> of a
  mit-mot output has its index \<open>position + k\<close> inside \<open>[-len, len)\<close>, where \<open>len\<close> is the
  length of the buffer: an index at or beyond \<open>len\<close> raises IndexError instead of
  wrapping around. The output slot of the slice (the slots of the mit-mot slices come
  first, output by output) is written at the entry \<open>position + k\<close> when the index is not
  negative, and at the entry \<open>len + position + k\<close> when it is; it is there after the
  iteration unless a later slice of the same output has the same entry, and the
  entries of no slice are left as they were. The re-ordering after the loop leaves the
  mit-mot buffers as the loop has written them: neither rotated, nor padded, nor
  trimmed.
\<close>

theorem mit_mot_written_unwrapped:
  "(loop_body env st = Inr st' \<longrightarrow> inner_inputs env st = Inr ins \<longrightarrow>
    e_fn env ins = Inr outputs \<longrightarrow>
    j < n_mit_mot (e_info env) \<longrightarrow> j < length (st_outs st) \<longrightarrow> st_outs st ! j = Some buf \<longrightarrow>
      (\<exists>buf'. st_outs st' ! j = Some buf' \<and> length buf' = length buf \<and>
         (\<forall>k\<in>set (mit_mot_out_slices (e_info env) ! j).
            - int (length buf) \<le> k + int (st_pos st ! j) \<and>
            k + int (st_pos st ! j) < int (length buf)) \<and>
         (\<forall>t<length (mit_mot_out_slices (e_info env) ! j).
            (\<forall>t'. t < t' \<and> t' < length (mit_mot_out_slices (e_info env) ! j) \<longrightarrow>
               entry_index (length buf)
                 (mit_mot_out_slices (e_info env) ! j ! t' + int (st_pos st ! j))
               \<noteq> entry_index (length buf)
                   (mit_mot_out_slices (e_info env) ! j ! t + int (st_pos st ! j))) \<longrightarrow>
            buf' ! entry_index (length buf)
                     (mit_mot_out_slices (e_info env) ! j ! t + int (st_pos st ! j))
              = outputs ! (mit_mot_slot (e_info env) j + t)) \<and>
         (\<forall>x. (\<forall>k\<in>set (mit_mot_out_slices (e_info env) ! j).
                  entry_index (length buf) (k + int (st_pos st ! j)) \<noteq> x) \<longrightarrow>
              buf' ! x = buf ! x))) \<and>
   (execute info fn via args outs shared = Inr (outs', shared') \<longrightarrow>
      (\<exists>env0 st0 final. prepare info fn via args outs shared = Inr (env0, st0) \<and>
         main_loop env0 st0 = Inr final \<and> length outs' = length (st_outs final) \<and>
         (\<forall>j<n_mit_mot info. outs' ! j = st_outs final ! j)))"
proof -
  have c: "\<exists>env0 st0 final. prepare info fn via args outs shared = Inr (env0, st0) \<and>
         main_loop env0 st0 = Inr final \<and> length outs' = length (st_outs final) \<and>
         (\<forall>j<n_mit_mot info. outs' ! j = st_outs final ! j)"
    if "execute info fn via args outs shared = Inr (outs', shared')"
  proof -
    from that obtain env0 st0 final where
      p: "prepare info fn via args outs shared = Inr (env0, st0)" and
      m: "main_loop env0 st0 = Inr final" and r: "reorder env0 final = Inr outs'"
      by (rule execute_Inr)
    have i: "e_info env0 = info" by (rule prepare_Inr(1) [OF p])
    from reorder_Inr(1) [OF r] reorder_Inr(3) [OF r] i p m show ?thesis by auto
  qed
  from loop_body_mit_mot_cell [of env st st' ins outputs j buf] c show ?thesis by blast
qed

theorem mit_mot_written_unwrapped_witness:
  "loop_body backward_env (backward_st 0 [1, 2, 3]) = Inr (backward_st 1 [1, 3, 3]) \<and>
   e_fn backward_env [1, 2] = Inr [3] \<and>
   (\<exists>buf'. st_outs (backward_st 1 [1, 3, 3]) ! 0 = Some buf' \<and> length buf' = 3 \<and>
      buf' ! 1 = [3] ! 0 \<and> buf' ! 0 = [1, 2, 3] ! 0 \<and> buf' ! 2 = [1, 2, 3] ! 2) \<and>
   loop_body behind_env (backward_st 0 [1, 2, 3]) = Inr (backward_st 1 [1, 2, 101]) \<and>
   (\<exists>buf'. st_outs (backward_st 1 [1, 2, 101]) ! 0 = Some buf' \<and> buf' ! (3 - 1) = [101] ! 0) \<and>
   execute backward_info add_fn int64_via_float64 backward_args [None] []
     = Inr ([Some [1, 3, 6]], []) \<and>
   (\<exists>env0 st0 final.
      prepare backward_info add_fn int64_via_float64 backward_args [None] [] = Inr (env0, st0) \<and>
      main_loop env0 st0 = Inr final \<and> st_outs final ! 0 = Some [1, 3, 6])"
proof -
  let ?st = "backward_st 0 [1, 2, 3]"
  have b1: "loop_body backward_env ?st = Inr (backward_st 1 [1, 3, 3])" by code_simp
  have i1: "inner_inputs backward_env ?st = Inr [1, 2]" by code_simp
  have f1: "e_fn backward_env [1, 2] = Inr [3]" by (simp add: backward_env_def add_fn_def)
  have b2: "loop_body behind_env ?st = Inr (backward_st 1 [1, 2, 101])" by code_simp
  have i2: "inner_inputs behind_env ?st = Inr [1]" by code_simp
  have f2: "e_fn behind_env [1] = Inr [101]" by (simp add: behind_env_def mark_fn_def)
  have j1: "0 < n_mit_mot (e_info backward_env)" "0 < n_mit_mot (e_info behind_env)"
    by (simp_all add: backward_env_def backward_info_def behind_env_def behind_info_def)
  have l: "0 < length (st_outs ?st)" and c: "st_outs ?st ! 0 = Some [1, 2, 3]"
    by (simp_all add: backward_st_def)
  have p0: "st_pos ?st ! 0 = 0" by (simp add: backward_st_def)
  have k1: "mit_mot_out_slices (e_info backward_env) ! 0 = [1]"
    by (simp add: backward_env_def backward_info_def)
  have k2: "mit_mot_out_slices (e_info behind_env) ! 0 = [- 1]"
    by (simp add: behind_env_def behind_info_def)
  have s0: "mit_mot_slot info 0 = 0" for info by (simp add: mit_mot_slot_def)
  let ?ks = "mit_mot_out_slices (e_info backward_env) ! 0"
  let ?ks' = "mit_mot_out_slices (e_info behind_env) ! 0"
  let ?len = "length [1, 2, 3 :: int]"
  from mit_mot_written_unwrapped [of backward_env ?st "backward_st 1 [1, 3, 3]" "[1, 2]" "[3]" 0
      "[1, 2, 3]" backward_info add_fn int64_via_float64 backward_args "[None]" "[]"
      "[Some [1, 3, 6]]" "[]", THEN conjunct1, rule_format, OF b1 i1 f1 j1(1) l c]
  obtain buf' where
    a1: "st_outs (backward_st 1 [1, 3, 3]) ! 0 = Some buf'" and a2: "length buf' = ?len" and
    a3: "\<forall>t<length ?ks.
            (\<forall>t'. t < t' \<and> t' < length ?ks \<longrightarrow>
               entry_index ?len (?ks ! t' + int (st_pos ?st ! 0))
                 \<noteq> entry_index ?len (?ks ! t + int (st_pos ?st ! 0))) \<longrightarrow>
            buf' ! entry_index ?len (?ks ! t + int (st_pos ?st ! 0))
              = [3] ! (mit_mot_slot (e_info backward_env) 0 + t)" and
    a4: "\<forall>x. (\<forall>k\<in>set ?ks. entry_index ?len (k + int (st_pos ?st ! 0)) \<noteq> x) \<longrightarrow>
            buf' ! x = [1, 2, 3] ! x"
    by blast
  from a2 have a2': "length buf' = 3" by simp
  from a3 [rule_format, of 0] have w1: "buf' ! 1 = [3] ! 0"
    by (simp add: k1 p0 s0 entry_index_def)
  from a4 [rule_format, of 0] a4 [rule_format, of 2]
  have w2: "buf' ! 0 = [1, 2, 3] ! 0" "buf' ! 2 = [1, 2, 3] ! 2"
    by (simp_all add: k1 p0 entry_index_def)
  from mit_mot_written_unwrapped [of behind_env ?st "backward_st 1 [1, 2, 101]" "[1]" "[101]" 0
      "[1, 2, 3]" backward_info add_fn int64_via_float64 backward_args "[None]" "[]"
      "[Some [1, 3, 6]]" "[]", THEN conjunct1, rule_format, OF b2 i2 f2 j1(2) l c]
  obtain buf'' where
    c1: "st_outs (backward_st 1 [1, 2, 101]) ! 0 = Some buf''" and
    c3: "\<forall>t<length ?ks'.
            (\<forall>t'. t < t' \<and> t' < length ?ks' \<longrightarrow>
               entry_index ?len (?ks' ! t' + int (st_pos ?st ! 0))
                 \<noteq> entry_index ?len (?ks' ! t + int (st_pos ?st ! 0))) \<longrightarrow>
            buf'' ! entry_index ?len (?ks' ! t + int (st_pos ?st ! 0))
              = [101] ! (mit_mot_slot (e_info behind_env) 0 + t)"
    by blast
  from c3 [rule_format, of 0] have w3: "buf'' ! (3 - 1) = [101] ! 0"
    by (simp add: k2 p0 s0 entry_index_def)
  from mit_mot_written_unwrapped [of backward_env ?st "backward_st 1 [1, 3, 3]" "[1, 2]" "[3]" 0
      "[1, 2, 3]" backward_info add_fn int64_via_float64 backward_args "[None]" "[]"
      "[Some [1, 3, 6]]" "[]", THEN conjunct2, rule_format, OF backward_execute]
  obtain env0 st0 final where
    e1: "prepare backward_info add_fn int64_via_float64 backward_args [None] [] = Inr (env0, st0)"
    and e2: "main_loop env0 st0 = Inr final" and
    e3: "\<forall>j<n_mit_mot backward_info. [Some [1, 3, 6]] ! j = st_outs final ! j"
    by blast
  from e3 [rule_format, of 0] have e4: "st_outs final ! 0 = Some [1, 3, 6]"
    by (simp add: backward_info_def)
  from b1 f1 a1 a2' w1 w2 b2 c1 w3 backward_execute e1 e2 e4 show ?thesis by blast
qed

subsection \<open>Termination on a condition\<close>

text \<open>
  Claim C10 says that in while mode the loop proceeds to the next iteration if and
  only if the termination scalar is 0. The guard of the loop is
  \<^verbatim>\<open>(i < n_steps) and cond\<close>: in the run below, with \<open>n_steps = 2\<close>, the scalar of the
  second iteration is 0 and the loop ends all the same, no third iteration runs.
\<close>

theorem loop_ends_at_bound_with_zero_scalar:
  "as_while counter_info \<and>
   prepare counter_info counter_fn int64_via_float64 (counter_args_for 2) [None] []
     = Inr (counter_env_for 2, counter_st 0 True 1 [0, 9, 9, 9, 9, 9, 9, 9, 9]) \<and>
   step_outputs (counter_env_for 2) (counter_st 0 True 1 [0, 9, 9, 9, 9, 9, 9, 9, 9]) 1
     = Some [2, 0] \<and>
   n_mit_mot_outs counter_info + n_mit_sot counter_info + n_sit_sot counter_info
     + n_nit_sot counter_info + n_shared_outs counter_info = 1 \<and>
   [2, 0 :: int] ! 1 = 0 \<and>
   main_loop (counter_env_for 2) (counter_st 0 True 1 [0, 9, 9, 9, 9, 9, 9, 9, 9])
     = Inr (counter_st 2 True 3 [0, 1, 2, 9, 9, 9, 9, 9, 9]) \<and>
   step_outputs (counter_env_for 2) (counter_st 0 True 1 [0, 9, 9, 9, 9, 9, 9, 9, 9]) 2 = None"
proof -
  have a: "step_outputs (counter_env_for 2) (counter_st 0 True 1 [0, 9, 9, 9, 9, 9, 9, 9, 9]) 1
     = Some [2, 0]" by code_simp
  have b: "main_loop (counter_env_for 2) (counter_st 0 True 1 [0, 9, 9, 9, 9, 9, 9, 9, 9])
     = Inr (counter_st 2 True 3 [0, 1, 2, 9, 9, 9, 9, 9, 9])" by code_simp
  have c: "step_outputs (counter_env_for 2) (counter_st 0 True 1 [0, 9, 9, 9, 9, 9, 9, 9, 9]) 2
     = None" by code_simp
  from a b c counter_prepare_for [of 2] show ?thesis by (simp add: counter_info_def)
qed

text \<open>
  Claim C10, as amended. In while mode, after a call of the inner function the loop
  proceeds to the next iteration if and only if the termination scalar (the output
  slot after those of the mit-mot slices, of the mit-sot, sit-sot and nit-sot outputs
  and of the shared outputs) is 0 and fewer than \<open>n_steps\<close> iterations have run. The
  iteration is committed in full whatever the scalar is: the counter counts it, every
  position advances by \<open>+1 mod store_steps\<close>, the slices of every mit-mot output are
  written to its buffer, every mit-sot, sit-sot and nit-sot output gets its output
  slot at its position (in the buffer that it has, or for a nit-sot output on the
  first iteration in a buffer of its store length), and the shared outputs get theirs. When the scalar is not 0
  the loop ends with the state of that iteration, no further iteration runs; so it
  does when the scalar is 0 and \<open>n_steps\<close> iterations have run.
\<close>

theorem while_condition:
  assumes "as_while (e_info env)" and "loop_guard env st"
    and "inner_inputs env st = Inr ins" and "e_fn env ins = Inr outputs"
    and "loop_body env st = Inr st'"
  shows "st_cond st' =
           (outputs ! (n_mit_mot_outs (e_info env) + n_mit_sot (e_info env)
                       + n_sit_sot (e_info env) + n_nit_sot (e_info env)
                       + n_shared_outs (e_info env)) = 0) \<and>
         loop_guard env st' =
           (outputs ! (n_mit_mot_outs (e_info env) + n_mit_sot (e_info env)
                       + n_sit_sot (e_info env) + n_nit_sot (e_info env)
                       + n_shared_outs (e_info env)) = 0 \<and>
            st_i st' < e_n_steps env) \<and>
         main_loop env st = main_loop env st' \<and>
         (outputs ! (n_mit_mot_outs (e_info env) + n_mit_sot (e_info env)
                     + n_sit_sot (e_info env) + n_nit_sot (e_info env)
                     + n_shared_outs (e_info env)) \<noteq> 0 \<longrightarrow>
            main_loop env st' = Inr st') \<and>
         (outputs ! (n_mit_mot_outs (e_info env) + n_mit_sot (e_info env)
                     + n_sit_sot (e_info env) + n_nit_sot (e_info env)
                     + n_shared_outs (e_info env)) = 0 \<longrightarrow>
            main_loop env st' =
              (if st_i st' < e_n_steps env
               then (case loop_body env st' of Inl e \<Rightarrow> Inl e
                     | Inr st'' \<Rightarrow> main_loop env st'')
               else Inr st')) \<and>
         st_i st' = Suc (st_i st) \<and>
         length (st_pos st') = min (length (st_pos st)) (length (e_store_steps env)) \<and>
         (\<forall>idx<length (st_pos st'). st_pos st' ! idx =
            (if e_store_steps env ! idx = 0 then 0
             else (st_pos st ! idx + 1) mod e_store_steps env ! idx)) \<and>
         length (st_outs st') = length (st_outs st) \<and>
         (\<forall>j<length (st_outs st). j < n_mit_mot (e_info env) \<longrightarrow>
            (\<forall>buf. st_outs st ! j = Some buf \<longrightarrow>
               st_outs st' ! j =
                 Some (slices_written (st_pos st ! j) outputs (mit_mot_slot (e_info env) j)
                         (mit_mot_out_slices (e_info env) ! j) buf))) \<and>
         (\<forall>j<length (st_outs st). n_mit_mot (e_info env) \<le> j \<longrightarrow>
            j < n_outs (e_info env) + n_nit_sot (e_info env) \<longrightarrow>
            (\<exists>buf. (n_outs (e_info env) \<le> j \<and> st_i st = 0 \<longrightarrow>
                      length buf = e_store_steps env ! j) \<and>
                   (\<not> (n_outs (e_info env) \<le> j \<and> st_i st = 0) \<longrightarrow>
                      st_outs st ! j = Some buf) \<and>
                   st_pos st ! j < length buf \<and>
                   st_outs st' ! j =
                     Some (buf[st_pos st ! j :=
                             outputs ! (mit_mot_offset (e_info env)
                                        + (j - n_mit_mot (e_info env)))]))) \<and>
         st_shared st' =
           map (\<lambda>k. outputs ! (mit_mot_offset (e_info env) + n_mit_sot (e_info env)
                                  + n_sit_sot (e_info env) + n_nit_sot (e_info env) + k))
             [0..<n_shared_outs (e_info env)]"
proof -
  let ?scalar = "outputs ! (n_mit_mot_outs (e_info env) + n_mit_sot (e_info env)
                       + n_sit_sot (e_info env) + n_nit_sot (e_info env)
                       + n_shared_outs (e_info env))"
  from assms(5) obtain ins' outputs' where
    "inner_inputs env st = Inr ins'" and "e_fn env ins' = Inr outputs'" and
    si: "st_i st' = Suc (st_i st)" and
    sc: "st_cond st' =
           (if as_while (e_info env) then outputs' ! cond_slot (e_info env) = 0 else st_cond st)"
    and sp: "st_pos st' = map2 (\<lambda>p store. nat (numpy_mod (int p + 1) (int store))) (st_pos st)
                        (e_store_steps env)"
    by (rule loop_body_Inr)
  with assms(3,4) have eq: "outputs' = outputs" by simp
  have slot: "cond_slot (e_info env) =
                n_mit_mot_outs (e_info env) + n_mit_sot (e_info env)
                  + n_sit_sot (e_info env) + n_nit_sot (e_info env)
                  + n_shared_outs (e_info env)"
    by (simp add: cond_slot_def n_outs_def)
  have c: "st_cond st' = (?scalar = 0)"
    using sc eq assms(1) slot by simp
  have g: "loop_guard env st' = (?scalar = 0 \<and> st_i st' < e_n_steps env)"
    using c by (auto simp: loop_guard_def)
  have m1: "main_loop env st = main_loop env st'"
    using assms(2,5) by (subst main_loop.simps) simp
  have m2: "main_loop env st' = Inr st'" if "?scalar \<noteq> 0"
    using that g by (subst main_loop.simps) simp
  have m3: "main_loop env st' =
              (if st_i st' < e_n_steps env
               then (case loop_body env st' of Inl e \<Rightarrow> Inl e
                     | Inr st'' \<Rightarrow> main_loop env st'')
               else Inr st')" if "?scalar = 0"
    using that g by (subst main_loop.simps) simp
  have lp: "length (st_pos st') = min (length (st_pos st)) (length (e_store_steps env))"
    using sp by simp
  have pos: "st_pos st' ! idx =
            (if e_store_steps env ! idx = 0 then 0
             else (st_pos st ! idx + 1) mod e_store_steps env ! idx)"
    if "idx < length (st_pos st')" for idx
  proof -
    from that lp have "idx < length (st_pos st)" "idx < length (e_store_steps env)" by simp_all
    then have "st_pos st' ! idx =
                 nat (numpy_mod (int (st_pos st ! idx) + 1) (int (e_store_steps env ! idx)))"
      using sp by simp
    then show ?thesis by (simp add: numpy_mod_def nat_mod_as_int add.commute)
  qed
  note cells = loop_body_cells [OF assms(5,3,4)]
  have mm: "st_outs st' ! j =
                 Some (slices_written (st_pos st ! j) outputs (mit_mot_slot (e_info env) j)
                         (mit_mot_out_slices (e_info env) ! j) buf)"
    if "j < length (st_outs st)" "j < n_mit_mot (e_info env)" "st_outs st ! j = Some buf"
    for j buf
    using loop_body_mit_mot_written(1) [OF assms(5,3,4) that(2,1,3)] .
  have sot: "\<exists>buf. (n_outs (e_info env) \<le> j \<and> st_i st = 0 \<longrightarrow>
                      length buf = e_store_steps env ! j) \<and>
                   (\<not> (n_outs (e_info env) \<le> j \<and> st_i st = 0) \<longrightarrow>
                      st_outs st ! j = Some buf) \<and>
                   st_pos st ! j < length buf \<and>
                   st_outs st' ! j =
                     Some (buf[st_pos st ! j :=
                             outputs ! (mit_mot_offset (e_info env)
                                        + (j - n_mit_mot (e_info env)))])"
    if "j < length (st_outs st)" "n_mit_mot (e_info env) \<le> j"
      "j < n_outs (e_info env) + n_nit_sot (e_info env)" for j
  proof -
    from loop_body_sot_cell [OF assms(5,3,4) that(2,3,1)] obtain buf where
      b: "(if n_outs (e_info env) \<le> j \<and> st_i st = 0
           then nit_sot_cell (e_store_steps env ! j) (st_outs st ! j)
           else st_outs st ! j) = Some buf" and
      r: "st_pos st ! j < length buf"
         "st_outs st' ! j =
            Some (buf[st_pos st ! j :=
                    outputs ! (mit_mot_offset (e_info env) + (j - n_mit_mot (e_info env)))])"
      by blast
    have "length buf = e_store_steps env ! j" if "n_outs (e_info env) \<le> j \<and> st_i st = 0"
      using b that nit_sot_cell_length [of "e_store_steps env ! j" "st_outs st ! j"] by simp
    moreover have "st_outs st ! j = Some buf" if "\<not> (n_outs (e_info env) \<le> j \<and> st_i st = 0)"
      using b that by simp
    ultimately show ?thesis using r by blast
  qed
  note sh = loop_body_shared [OF assms(5,3,4)]
  from c g m1 m2 m3 si lp pos cells(1) mm sot sh show ?thesis by blast
qed

theorem while_condition_witness:
  "loop_body mixed_env mixed_st1 = Inr mixed_st2 \<and>
   e_fn mixed_env [3, 3, 1, 9] = Inr [6, 2, 20, 11, 1] \<and>
   [6, 2, 20, 11, 1 :: int] ! 4 \<noteq> 0 \<and>
   \<not> st_cond mixed_st2 \<and> \<not> loop_guard mixed_env mixed_st2 \<and>
   main_loop mixed_env mixed_st1 = Inr mixed_st2 \<and>
   main_loop mixed_env mixed_st2 = Inr mixed_st2 \<and>
   st_i mixed_st2 = 2 \<and>
   st_pos mixed_st2 ! 0 = (1 + 1) mod 6 \<and> st_pos mixed_st2 ! 1 = (2 + 1) mod 6 \<and>
   st_pos mixed_st2 ! 2 = (1 + 1) mod 5 \<and>
   st_outs mixed_st2 ! 0 = Some (slices_written 1 [6, 2, 20, 11, 1] 0 [1] [1, 3, 3, 4, 5, 6]) \<and>
   slices_written 1 [6, 2, 20, 11, 1] 0 [1] [1, 3, 3, 4, 5, 6 :: int] = [1, 3, 6, 4, 5, 6] \<and>
   st_outs mixed_st2 ! 1 = Some ([0, 1, 9, 9, 9, 9][2 := [6, 2, 20, 11, 1] ! 1]) \<and>
   st_outs mixed_st2 ! 2 = Some ([10, 0, 0, 0, 0][1 := [6, 2, 20, 11, 1] ! 2]) \<and>
   st_shared mixed_st2 = [[6, 2, 20, 11, 1] ! 3]"
proof -
  have a: "as_while (e_info mixed_env)" by (simp add: mixed_env_def mixed_info_def)
  have b: "loop_guard mixed_env mixed_st1"
    by (simp add: loop_guard_def mixed_env_def mixed_st1_def)
  have c: "inner_inputs mixed_env mixed_st1 = Inr [3, 3, 1, 9]" by code_simp
  have d: "e_fn mixed_env [3, 3, 1, 9] = Inr [6, 2, 20, 11, 1]"
    by (simp add: mixed_env_def mixed_fn_def)
  note t = while_condition [OF a b c d mixed_second_step]
  have n: "n_mit_mot_outs (e_info mixed_env) + n_mit_sot (e_info mixed_env)
             + n_sit_sot (e_info mixed_env) + n_nit_sot (e_info mixed_env)
             + n_shared_outs (e_info mixed_env) = 4"
    by (simp add: mixed_env_def mixed_info_def)
  have o: "mit_mot_offset (e_info mixed_env) = 1" "mit_mot_slot (e_info mixed_env) 0 = 0"
    "n_mit_mot (e_info mixed_env) = 1" "n_outs (e_info mixed_env) = 2"
    "n_nit_sot (e_info mixed_env) = 1" "n_mit_sot (e_info mixed_env) = 0"
    "n_sit_sot (e_info mixed_env) = 1" "n_shared_outs (e_info mixed_env) = 1"
    "mit_mot_out_slices (e_info mixed_env) ! 0 = [1]"
    by (simp_all add: mixed_env_def mixed_info_def mit_mot_offset_def mit_mot_slot_def n_outs_def)
  have sc: "[6, 2, 20, 11, 1 :: int] ! 4 \<noteq> 0" by simp
  from t have t1: "st_cond mixed_st2 = ([6, 2, 20, 11, 1 :: int] ! 4 = 0)"
    unfolding n by (rule conjunct1)
  from t have t2: "loop_guard mixed_env mixed_st2 =
                     ([6, 2, 20, 11, 1 :: int] ! 4 = 0 \<and> st_i mixed_st2 < e_n_steps mixed_env)"
    unfolding n by blast
  from t have t3: "main_loop mixed_env mixed_st1 = main_loop mixed_env mixed_st2" by blast
  from t have "[6, 2, 20, 11, 1 :: int] ! 4 \<noteq> 0 \<longrightarrow> main_loop mixed_env mixed_st2 = Inr mixed_st2"
    unfolding n by blast
  with sc have t4: "main_loop mixed_env mixed_st2 = Inr mixed_st2" by (rule rev_mp)
  from t have t5: "st_i mixed_st2 = Suc (st_i mixed_st1)" by blast
  from t have t6: "\<forall>idx<length (st_pos mixed_st2). st_pos mixed_st2 ! idx =
            (if e_store_steps mixed_env ! idx = 0 then 0
             else (st_pos mixed_st1 ! idx + 1) mod e_store_steps mixed_env ! idx)" by blast
  from t have t7: "\<forall>j<length (st_outs mixed_st1). j < n_mit_mot (e_info mixed_env) \<longrightarrow>
            (\<forall>buf. st_outs mixed_st1 ! j = Some buf \<longrightarrow>
               st_outs mixed_st2 ! j =
                 Some (slices_written (st_pos mixed_st1 ! j) [6, 2, 20, 11, 1]
                         (mit_mot_slot (e_info mixed_env) j)
                         (mit_mot_out_slices (e_info mixed_env) ! j) buf))" by blast
  from t have t8: "\<forall>j<length (st_outs mixed_st1). n_mit_mot (e_info mixed_env) \<le> j \<longrightarrow>
            j < n_outs (e_info mixed_env) + n_nit_sot (e_info mixed_env) \<longrightarrow>
            (\<exists>buf. (n_outs (e_info mixed_env) \<le> j \<and> st_i mixed_st1 = 0 \<longrightarrow>
                      length buf = e_store_steps mixed_env ! j) \<and>
                   (\<not> (n_outs (e_info mixed_env) \<le> j \<and> st_i mixed_st1 = 0) \<longrightarrow>
                      st_outs mixed_st1 ! j = Some buf) \<and>
                   st_pos mixed_st1 ! j < length buf \<and>
                   st_outs mixed_st2 ! j =
                     Some (buf[st_pos mixed_st1 ! j :=
                             [6, 2, 20, 11, 1] ! (mit_mot_offset (e_info mixed_env)
                                        + (j - n_mit_mot (e_info mixed_env)))]))" by blast
  from t have t9: "st_shared mixed_st2 =
           map (\<lambda>k. [6, 2, 20, 11, 1] ! (mit_mot_offset (e_info mixed_env)
                                  + n_mit_sot (e_info mixed_env)
                                  + n_sit_sot (e_info mixed_env) + n_nit_sot (e_info mixed_env) + k))
             [0..<n_shared_outs (e_info mixed_env)]" by blast
  have l: "length (st_pos mixed_st2) = 3" "length (st_outs mixed_st1) = 3"
    by (simp_all add: mixed_st2_def mixed_st1_def)
  have p0: "st_pos mixed_st2 ! 0 = (1 + 1) mod 6"
    using t6 [rule_format, of 0] l by (simp add: mixed_env_def mixed_st1_def)
  have p1: "st_pos mixed_st2 ! 1 = (2 + 1) mod 6"
    using t6 [rule_format, of 1] l by (simp add: mixed_env_def mixed_st1_def)
  have p2: "st_pos mixed_st2 ! 2 = (1 + 1) mod 5"
    using t6 [rule_format, of 2] l by (simp add: mixed_env_def mixed_st1_def)
  have c0: "st_outs mixed_st2 ! 0
              = Some (slices_written 1 [6, 2, 20, 11, 1] 0 [1] [1, 3, 3, 4, 5, 6])"
    using t7 [rule_format, of 0 "[1, 3, 3, 4, 5, 6]"] l o by (simp add: mixed_st1_def)
  have sw: "slices_written 1 [6, 2, 20, 11, 1] 0 [1] [1, 3, 3, 4, 5, 6 :: int]
              = [1, 3, 6, 4, 5, 6]"
    by (simp add: entry_index_def)
  have c1: "st_outs mixed_st2 ! 1 = Some ([0, 1, 9, 9, 9, 9][2 := [6, 2, 20, 11, 1] ! 1])"
    using t8 [rule_format, of 1] l o by (simp add: mixed_st1_def)
  have c2: "st_outs mixed_st2 ! 2 = Some ([10, 0, 0, 0, 0][1 := [6, 2, 20, 11, 1] ! 2])"
    using t8 [rule_format, of 2] l o by (simp add: mixed_st1_def)
  have sh: "st_shared mixed_st2 = [[6, 2, 20, 11, 1] ! 3]"
    using t9 o by simp
  from t1 sc have nc: "\<not> st_cond mixed_st2" by simp
  from t2 sc have ng: "\<not> loop_guard mixed_env mixed_st2" by simp
  from t3 t4 have ml: "main_loop mixed_env mixed_st1 = Inr mixed_st2" by simp
  from t5 have i2: "st_i mixed_st2 = 2" by (simp add: mixed_st1_def)
  from mixed_second_step d sc nc ng ml t4 i2 p0 p1 p2 c0 sw c1 c2 sh show ?thesis by blast
qed

section \<open>The claims about the gradient constructor\<close>

subsection \<open>The backward tap structure\<close>

text \<open>
  Claim C5: every forward mit-sot and sit-sot output becomes a backward mit-mot
  output (the backward op has no mit-sot and no sit-sot output, and as many mit-mot
  outputs as the forward op has mit-mot, mit-sot and sit-sot outputs), and for every
  forward tap \<open>k\<close> of such an output the backward output has \<open>-k\<close> among its taps and
  among its out slices. The code holds this when the forward op has no mit-mot
  output. With one, the loop over the mit-sot outputs appends the taps at
  \<^verbatim>\<open>mit_mot_taps[idx + offset]\<close> but the out slices at \<^verbatim>\<open>mit_mot_out_slices[idx]\<close>,
  without the offset: below, the backward output 1 of the forward mit-sot output with
  taps \<open>-2, -1\<close> has the taps \<open>2, 1, 0\<close> and no out slice at all, and its slices \<open>2, 1\<close>
  are in the list of output 0.
\<close>

theorem mit_sot_out_slices_misplaced:
  "n_mit_mot (grad_info second_order_info 0) = 2 \<and>
   n_mit_sot (grad_info second_order_info 0) = 0 \<and>
   n_sit_sot (grad_info second_order_info 0) = 0 \<and>
   tap_array second_order_info ! 1 = [- 2, - 1] \<and>
   tap_array (grad_info second_order_info 0) ! 1 = [2, 1, 0] \<and>
   mit_mot_out_slices (grad_info second_order_info 0) ! 1 = [] \<and>
   mit_mot_out_slices (grad_info second_order_info 0) ! 0 = [0, - 1, 2, 1]"
  by code_simp

text \<open>
  Without a forward mit-mot output the offset is 0 and the two lists agree: the
  backward output of a mit-sot output with the taps \<open>ks\<close> has the taps \<open>- ks\<close> and 0 and
  the out slices \<open>- ks\<close>, that of a sit-sot output the taps 0 and 1 and the out slice 1.
\<close>

lemma append_at_last: "length xss = k \<Longrightarrow> append_at (xss @ [xs]) k v = xss @ [xs @ [v]]"
  by (auto simp: append_at_def)

lemma mit_sot_taps_fold:
  assumes "m \<le> length xs" and "length (b_taps b) = Suc k" and "length (b_out_slices b) = Suc k"
  shows "fold (\<lambda>jdx b. b\<lparr>b_taps := append_at (b_taps b) k (- (xs ! jdx)),
                          b_out_slices := append_at (b_out_slices b) k (- (xs ! jdx)),
                          b_n_mit_mot_outs := Suc (b_n_mit_mot_outs b)\<rparr>) [0..<m] b
         = b\<lparr>b_taps := butlast (b_taps b) @ [last (b_taps b) @ map uminus (take m xs)],
             b_out_slices :=
               butlast (b_out_slices b) @ [last (b_out_slices b) @ map uminus (take m xs)],
             b_n_mit_mot_outs := b_n_mit_mot_outs b + m\<rparr>"
  using assms(1)
proof (induction m)
  case 0
  from assms(2,3) have "b_taps b \<noteq> []" "b_out_slices b \<noteq> []" by auto
  then show ?case by simp
next
  case (Suc m)
  from assms(2,3) have l: "length (butlast (b_taps b)) = k" "length (butlast (b_out_slices b)) = k"
    by simp_all
  from Suc.prems have t: "take (Suc m) xs = take m xs @ [xs ! m]"
    by (simp add: take_Suc_conv_app_nth)
  from Suc show ?case
    by (simp add: t append_at_last assms(2,3))
qed

lemma grad_mit_sot_step:
  assumes "n_mit_mot info = 0" and "length (b_taps b) = idx" and "length (b_out_slices b) = idx"
  shows "grad_mit_sot info idx b =
           b\<lparr>b_taps := b_taps b @ [map uminus (tap_array info ! idx) @ [0]],
             b_out_slices := b_out_slices b @ [map uminus (tap_array info ! idx)],
             b_n_mit_mot_outs := b_n_mit_mot_outs b + length (tap_array info ! idx)\<rparr>"
proof -
  let ?b1 = "b\<lparr>b_taps := b_taps b @ [[]], b_out_slices := b_out_slices b @ [[]]\<rparr>"
  have l: "length (b_taps ?b1) = Suc idx" "length (b_out_slices ?b1) = Suc idx"
    using assms by simp_all
  note f = mit_sot_taps_fold [OF le_refl l, of "tap_array info ! idx"]
  show ?thesis
    using assms by (simp add: grad_mit_sot_def Let_def f append_at_last)
qed

lemma grad_mit_sot_fold:
  assumes "n_mit_mot info = 0"
  shows "b_taps (fold (grad_mit_sot info) [0..<n] \<lparr>b_taps = [], b_out_slices = [], b_n_mit_mot_outs = 0\<rparr>)
           = map (\<lambda>idx. map uminus (tap_array info ! idx) @ [0]) [0..<n] \<and>
         b_out_slices (fold (grad_mit_sot info) [0..<n]
                         \<lparr>b_taps = [], b_out_slices = [], b_n_mit_mot_outs = 0\<rparr>)
           = map (\<lambda>idx. map uminus (tap_array info ! idx)) [0..<n]"
proof (induction n)
  case 0
  show ?case by simp
next
  case (Suc n)
  let ?b = "fold (grad_mit_sot info) [0..<n] \<lparr>b_taps = [], b_out_slices = [], b_n_mit_mot_outs = 0\<rparr>"
  from Suc have l: "length (b_taps ?b) = n" "length (b_out_slices ?b) = n" by simp_all
  from Suc show ?case by (simp add: grad_mit_sot_step [OF assms l])
qed

lemma grad_sit_sot_fold:
  "b_taps (fold grad_sit_sot xs b) = b_taps b @ replicate (length xs) [0, 1] \<and>
   b_out_slices (fold grad_sit_sot xs b) = b_out_slices b @ replicate (length xs) [1]"
proof (induction xs arbitrary: b)
  case Nil
  show ?case by simp
next
  case (Cons x xs)
  show ?case
    by (simp add: Cons.IH) (simp add: grad_sit_sot_def replicate_append_same)
qed

lemma backward_taps_without_mit_mot:
  assumes "n_mit_mot info = 0"
  shows "n_mit_mot (grad_info info n_other) = n_mit_sot info + n_sit_sot info \<and>
         n_mit_sot (grad_info info n_other) = 0 \<and> n_sit_sot (grad_info info n_other) = 0 \<and>
         tap_array (grad_info info n_other) =
           map (\<lambda>idx. map uminus (tap_array info ! idx) @ [0]) [0..<n_mit_sot info] @
           replicate (n_sit_sot info) [0, 1] \<and>
         mit_mot_out_slices (grad_info info n_other) =
           map (\<lambda>idx. map uminus (tap_array info ! idx)) [0..<n_mit_sot info] @
           replicate (n_sit_sot info) [1]"
  using assms grad_mit_sot_fold [OF assms, of "n_mit_sot info"]
  by (simp add: grad_info_def grad_taps_def grad_sit_sot_fold)

lemma backward_taps_recurrent:
  "n_mit_mot (grad_info recurrent_info 0) = 2 \<and>
   n_mit_sot (grad_info recurrent_info 0) = 0 \<and>
   n_sit_sot (grad_info recurrent_info 0) = 0 \<and>
   tap_array (grad_info recurrent_info 0) = [[2, 1, 0], [0, 1]] \<and>
   mit_mot_out_slices (grad_info recurrent_info 0) = [[2, 1], [1]]"
  by code_simp

subsection \<open>The number of backward steps\<close>

text \<open>
  Claim C6: with a \<^verbatim>\<open>truncate_gradient\<close> other than \<open>-1\<close> the backward op is invoked
  with \<open>min n_steps truncate_gradient\<close> steps, and with \<open>-1\<close> (unlimited) with exactly
  the forward \<open>n_steps\<close>.
\<close>

theorem backward_step_count:
  "do_steps info n_steps =
     (if truncate_gradient info = - 1 then n_steps else min n_steps (truncate_gradient info))"
  by (simp add: do_steps_def)

theorem backward_step_count_witness:
  "do_steps truncated_info 20 = 5 \<and> do_steps (truncated_info\<lparr>truncate_gradient := - 1\<rparr>) 20 = 20"
  using backward_step_count [of truncated_info 20]
    backward_step_count [of "truncated_info\<lparr>truncate_gradient := - 1\<rparr>" 20]
  by (simp add: truncated_info_def)

subsection \<open>Summing the gradients\<close>













end
